theory Spec2Isabelle
  imports Main "HOL-Library.Word" "HOL-Library.Char_ord" "HOL-Library.List_Lexorder"
    "HOL-Library.Multiset"
begin

unbundle bit_operations_syntax

section \<open>Basic types\<close>

text \<open>
  \<^verbatim>\<open>feature_id_t\<close> and \<^verbatim>\<open>model_id_t\<close> are \<^verbatim>\<open>unsigned short\<close> in the source. They
  are only compared, incremented below a bound and printed, so they are natural numbers
  here. \<^verbatim>\<open>maxnat_t\<close> is \<^verbatim>\<open>uintmax_t\<close>: its arithmetic wraps around at 64 bits and is
  a \<open>64 word\<close>.
\<close>

type_synonym feature_id_t = nat
type_synonym model_id_t = nat
type_synonym maxnat_t = "64 word"

datatype error =
    Logic_error string
  | Length_error string
  | Domain_error string
  | Invalid_argument string
  | Out_of_range
  | Division_by_zero

section \<open>Model catalog (features.hpp)\<close>

definition hasO :: "model_id_t \<Rightarrow> bool" where
  "hasO M \<longleftrightarrow> (M = 2 \<or> M = 4 \<or> M = 6 \<or> M = 8 \<or> M = 11 \<or> M = 13 \<or>
                M = 14 \<or> M = 16 \<or> M = 17 \<or> M = 19)"

definition hasA :: "model_id_t \<Rightarrow> bool" where
  "hasA M \<longleftrightarrow> (M = 3 \<or> M = 4 \<or> M = 7 \<or> M = 8 \<or> M = 12 \<or> M = 13 \<or>
                M = 15 \<or> M = 16 \<or> M = 18 \<or> M = 19)"

definition hasN :: "model_id_t \<Rightarrow> bool" where
  "hasN M \<longleftrightarrow> (M = 5 \<or> M = 6 \<or> M = 7 \<or> M = 8 \<or> M = 9 \<or> M = 10 \<or>
                M = 11 \<or> M = 12 \<or> M = 13 \<or> M = 14 \<or> M = 15 \<or>
                M = 16 \<or> M = 17 \<or> M = 18 \<or> M = 19)"

definition hasON :: "model_id_t \<Rightarrow> bool" where
  "hasON M \<longleftrightarrow> (M = 9 \<or> M = 11 \<or> M = 12 \<or> M = 13 \<or> M = 17 \<or>
                 M = 18 \<or> M = 19)"

definition hasAN :: "model_id_t \<Rightarrow> bool" where
  "hasAN M \<longleftrightarrow> (M = 10 \<or> M = 14 \<or> M = 15 \<or> M = 16 \<or> M = 17 \<or>
                 M = 18 \<or> M = 19)"

text \<open>The five predicates of a model as one tuple.\<close>

definition model_flags :: "model_id_t \<Rightarrow> bool \<times> bool \<times> bool \<times> bool \<times> bool" where
  "model_flags M = (hasO M, hasA M, hasN M, hasON M, hasAN M)"


section \<open>Closed-form strategy: the bitmask of non-existent systems (features.hpp)\<close>

text \<open>
  \<^verbatim>\<open>initialize_bitmask\<close>: the loop ors \<^verbatim>\<open>1llu << s\<close> for \<open>s = 0, ..., S - 1\<close> into
  the mask and returns its complement. The shift is defined in C++ for \<open>s < 64\<close> only,
  that is for \<open>S \<le> 64\<close>.
\<close>

primrec bitmask_loop :: "nat \<Rightarrow> maxnat_t" where
  "bitmask_loop 0 = 0"
| "bitmask_loop (Suc s) = bitmask_loop s OR push_bit s 1"

definition initialize_bitmask :: "maxnat_t \<Rightarrow> maxnat_t" where
  "initialize_bitmask S = NOT (bitmask_loop (unat S))"

text \<open>
  The value of a not-feature in \<^verbatim>\<open>calculate_not_features\<close>:
  \<^verbatim>\<open>~(f.second ^ systems_bitmask())\<close>.
\<close>

definition not_feature_value :: "maxnat_t \<Rightarrow> maxnat_t \<Rightarrow> maxnat_t" where
  "not_feature_value systems_bitmask v = NOT (v XOR systems_bitmask)"

section \<open>Difference expressions as bit vectors (fl.cpp)\<close>

type_synonym difference_expression_t = "bool list"

text \<open>\<^verbatim>\<open>operator~\<close>: the loop negates the element at every index \<open>i < de.size()\<close>.\<close>

function negate_from :: "difference_expression_t \<Rightarrow> nat \<Rightarrow> difference_expression_t" where
  "negate_from de i = (if i < length de then negate_from (de[i := \<not> de ! i]) (Suc i) else de)"
  by pat_completeness auto
termination
  by (relation "measure (\<lambda>(de, i). length de - i)") auto

declare negate_from.simps [simp del]

definition de_not :: "difference_expression_t \<Rightarrow> difference_expression_t" where
  "de_not de = negate_from de 0"

section \<open>Helpers shared by both programs\<close>

text \<open>\<^verbatim>\<open>std::to_string\<close> on an unsigned value: its decimal digits.\<close>

fun to_string :: "nat \<Rightarrow> string" where
  "to_string n =
     (if n < 10 then [''0123456789'' ! n]
      else to_string (n div 10) @ [''0123456789'' ! (n mod 10)])"

declare to_string.simps [simp del]

text \<open>
  \<^verbatim>\<open>power\<close> (the same function in features.hpp and fl.cpp): the loop
  \<^verbatim>\<open>while (exponent--) result *= base\<close> runs \<open>exponent\<close> times and multiplies modulo
  \<open>2 ^ 64\<close>.
\<close>

primrec power_loop :: "nat \<Rightarrow> maxnat_t \<Rightarrow> maxnat_t \<Rightarrow> maxnat_t" where
  "power_loop 0 base result = result"
| "power_loop (Suc exponent) base result = power_loop exponent base (result * base)"

definition power_u :: "maxnat_t \<Rightarrow> maxnat_t \<Rightarrow> maxnat_t" where
  "power_u base exponent = power_loop (unat exponent) base 1"

section \<open>The difference expression generator (fl.cpp)\<close>

text \<open>\<^verbatim>\<open>ceil_div\<close>: \<^verbatim>\<open>x / y + !!(x % y)\<close>; the division traps when \<open>y = 0\<close>.\<close>

definition ceil_div :: "maxnat_t \<Rightarrow> maxnat_t \<Rightarrow> error + maxnat_t" where
  "ceil_div x y =
     (if y = 0 then Inl Division_by_zero
      else Inr (x div y + (if x mod y \<noteq> 0 then 1 else 0)))"

record difference_expression_generator =
  dg_F :: maxnat_t
  dg_S :: maxnat_t

definition make_generator :: "maxnat_t \<Rightarrow> difference_expression_generator" where
  "make_generator F = \<lparr>dg_F = F, dg_S = power_u 2 F\<rparr>"

text \<open>
  The loop of \<^verbatim>\<open>operator()(maxnat_t f)\<close>, run once per system: the state is the
  bitstring built so far, the counter and the current bit.
\<close>

primrec expression_loop ::
  "nat \<Rightarrow> maxnat_t \<Rightarrow> difference_expression_t \<times> maxnat_t \<times> bool \<Rightarrow>
   difference_expression_t \<times> maxnat_t \<times> bool" where
  "expression_loop 0 stride st = st"
| "expression_loop (Suc systems) stride st =
     (case st of (bitstring, counter, b) \<Rightarrow>
        let bitstring' = bitstring @ [b];
            counter' = counter + 1
        in if counter' = stride
           then expression_loop systems stride (bitstring', 0, \<not> b)
           else expression_loop systems stride (bitstring', counter', b))"

definition dg_expression ::
  "difference_expression_generator \<Rightarrow> maxnat_t \<Rightarrow> error + difference_expression_t" where
  "dg_expression dg f =
     (if f > dg_F dg then Inl (Invalid_argument ''f > F()'')
      else let stride = power_u 2 (f - 1)
           in Inr (fst (expression_loop (unat (dg_S dg)) stride ([], 0, False))))"

text \<open>\<^verbatim>\<open>operator()(maxnat_t f, maxnat_t s)\<close>: the value for one feature and one system.\<close>

definition dg_value :: "difference_expression_generator \<Rightarrow> maxnat_t \<Rightarrow> maxnat_t \<Rightarrow> error + bool" where
  "dg_value dg f s =
     (if f > dg_F dg then Inl (Invalid_argument ''f > F()'')
      else if s > dg_S dg then Inl (Invalid_argument ''s > S()'')
      else let stride = power_u 2 (f - 1)
           in case ceil_div s stride of
                Inl e \<Rightarrow> Inl e
              | Inr q \<Rightarrow> Inr (\<not> (q mod 2 \<noteq> 0)))"

subsection \<open>Printing (fl.cpp)\<close>

definition show_bool :: "bool \<Rightarrow> char" where
  "show_bool b = (if b then CHR ''1'' else CHR ''0'')"

text \<open>\<^verbatim>\<open>operator<<\<close>: writes \<open>de[i - 1]\<close> for \<open>i = de.size(), ..., 1\<close>.\<close>

primrec show_from :: "difference_expression_t \<Rightarrow> nat \<Rightarrow> string" where
  "show_from de 0 = []"
| "show_from de (Suc i) = show_bool (de ! i) # show_from de i"

definition show_expression :: "difference_expression_t \<Rightarrow> string" where
  "show_expression de = show_from de (length de)"

text \<open>
  \<^verbatim>\<open>print_independent_features\<close>: the contents written to the file, for
  \<open>f = 1, ..., F\<close>. The second argument of the loop is \<open>f\<close>, the first the number of
  features still to print.
\<close>

primrec print_loop ::
  "nat \<Rightarrow> difference_expression_generator \<Rightarrow> nat \<Rightarrow> string \<Rightarrow> error + string" where
  "print_loop 0 dg f os = Inr os"
| "print_loop (Suc todo) dg f os =
     (case dg_expression dg (of_nat f) of
        Inl e \<Rightarrow> Inl e
      | Inr de \<Rightarrow>
          print_loop todo dg (Suc f)
            (os @ ''f'' @ to_string f @ [CHR 0x09] @ show_expression de @ [CHR 0x0A]))"

definition print_independent_features :: "difference_expression_generator \<Rightarrow> error + string" where
  "print_independent_features dg = print_loop (unat (dg_F dg)) dg 1 []"

text \<open>
  \<^verbatim>\<open>print_independent_features_alt\<close>: the inner loop is
  \<^verbatim>\<open>for (maxnat_t s { dg.S() }; s > 1; --s) os << dg(f,s);\<close>
\<close>

fun alt_bits :: "difference_expression_generator \<Rightarrow> nat \<Rightarrow> nat \<Rightarrow> string \<Rightarrow> error + string" where
  "alt_bits dg f 0 os = Inr os"
| "alt_bits dg f (Suc s') os =
     (if Suc s' > 1
      then case dg_value dg (of_nat f) (of_nat (Suc s')) of
             Inl e \<Rightarrow> Inl e
           | Inr b \<Rightarrow> alt_bits dg f s' (os @ [show_bool b])
      else Inr os)"

primrec print_alt_loop ::
  "nat \<Rightarrow> difference_expression_generator \<Rightarrow> nat \<Rightarrow> string \<Rightarrow> error + string" where
  "print_alt_loop 0 dg f os = Inr os"
| "print_alt_loop (Suc todo) dg f os =
     (case alt_bits dg f (unat (dg_S dg)) (os @ ''f'' @ to_string f @ [CHR 0x09]) of
        Inl e \<Rightarrow> Inl e
      | Inr os' \<Rightarrow> print_alt_loop todo dg (Suc f) (os' @ [CHR 0x0A]))"

definition print_independent_features_alt :: "difference_expression_generator \<Rightarrow> error + string" where
  "print_independent_features_alt dg = print_alt_loop (unat (dg_F dg)) dg 1 []"


section \<open>Combinatorics utilities (features.hpp)\<close>

text \<open>
  \<^verbatim>\<open>product\<close>: the product of the numbers in \<open>[from, to]\<close>, modulo \<open>2 ^ 64\<close>. The loop
  \<^verbatim>\<open>while (from <= to) result *= to--\<close> is entered with \<open>from \<noteq> 0\<close> only, which is
  what makes it stop; the loop function repeats that guard.
\<close>

function product_loop :: "maxnat_t \<Rightarrow> maxnat_t \<Rightarrow> maxnat_t \<Rightarrow> maxnat_t" where
  "product_loop from to result =
     (if from \<noteq> 0 \<and> from \<le> to then product_loop from (to - 1) (result * to) else result)"
  by pat_completeness auto
termination
proof (relation "measure (\<lambda>(from, to, result). unat to)")
  show "wf (measure (\<lambda>(from, to, result). unat to))" by simp
next
  fix "from" to result :: maxnat_t
  assume "from \<noteq> 0 \<and> from \<le> to"
  then have "to \<noteq> 0" by auto
  then have "unat (to - 1) < unat to"
    by (simp add: unat_minus_one unat_gt_0)
  then show "((from, to - 1, result * to), (from, to, result)) \<in> measure (\<lambda>(from, to, result). unat to)"
    by simp
qed

declare product_loop.simps [simp del]

definition product_u :: "maxnat_t \<Rightarrow> maxnat_t \<Rightarrow> maxnat_t" where
  "product_u from to = (if from = 0 \<or> to = 0 then 0 else product_loop from to 1)"

definition factorial :: "maxnat_t \<Rightarrow> maxnat_t" where
  "factorial n = (if n = 0 then 1 else product_u 1 n)"

text \<open>\<^verbatim>\<open>combinations\<close>: the division traps when \<open>factorial(k)\<close> has wrapped to 0.\<close>

definition combinations_u :: "maxnat_t \<Rightarrow> maxnat_t \<Rightarrow> error + maxnat_t" where
  "combinations_u n k =
     (if factorial k = 0 then Inl Division_by_zero
      else Inr (product_u (n + 1 - k) n div factorial k))"

text \<open>
  \<^verbatim>\<open>sum_of_combinations\<close>: \<^verbatim>\<open>while (k <= n) result += combinations(n,k++)\<close>. The
  counter is a natural number here; it agrees with the 64-bit counter of the source for
  every \<open>n < 2 ^ 64 - 1\<close> (for \<open>n = 2 ^ 64 - 1\<close> the loop of the source does not stop).
\<close>

function sum_loop :: "maxnat_t \<Rightarrow> nat \<Rightarrow> maxnat_t \<Rightarrow> error + maxnat_t" where
  "sum_loop n k result =
     (if k \<le> unat n
      then case combinations_u n (of_nat k) of
             Inl e \<Rightarrow> Inl e
           | Inr c \<Rightarrow> sum_loop n (Suc k) (result + c)
      else Inr result)"
  by pat_completeness auto
termination
  by (relation "measure (\<lambda>(n, k, result). Suc (unat n) - k)") auto

declare sum_loop.simps [simp del]

definition sum_of_combinations :: "maxnat_t \<Rightarrow> maxnat_t \<Rightarrow> error + maxnat_t" where
  "sum_of_combinations n k = sum_loop n (unat k) 0"

definition power2_u :: "maxnat_t \<Rightarrow> maxnat_t" where
  "power2_u exponent = power_u 2 exponent"

text \<open>\<^verbatim>\<open>contains\<close> is \<^verbatim>\<open>std::find(...) != v.cend()\<close>; \<^verbatim>\<open>concat\<close> appends and is \<open>@\<close>.\<close>

definition contains :: "'a list \<Rightarrow> 'a \<Rightarrow> bool" where
  "contains v e \<longleftrightarrow> e \<in> set v"

definition negate :: "feature_id_t list \<Rightarrow> feature_id_t \<Rightarrow> feature_id_t list" where
  "negate v n = filter (\<lambda>i. \<not> contains v i) [1..<Suc n]"

section \<open>Names (features.hpp)\<close>

text \<open>
  The string constants of the namespace. \<^verbatim>\<open>feature\<close> and \<^verbatim>\<open>system\<close> carry the suffix
  \<open>_sym\<close> here, since \<open>feature\<close> is also a field of \<^verbatim>\<open>system_feature_difference_t\<close>.
\<close>

abbreviation feature_and :: string where "feature_and \<equiv> ''*''"
abbreviation feature_or :: string where "feature_or \<equiv> ''+''"
abbreviation feature_not :: string where "feature_not \<equiv> ''!''"
abbreviation feature_sym :: string where "feature_sym \<equiv> ''f''"
abbreviation feature_separator :: string where "feature_separator \<equiv> '' ''"
abbreviation system_sym :: string where "system_sym \<equiv> ''S''"

text \<open>
  A parameter of type \<^verbatim>\<open>feature_id_t\<close> that receives a \<^verbatim>\<open>maxnat_t\<close> keeps its low 16
  bits.
\<close>

definition to_feature_id :: "nat \<Rightarrow> feature_id_t" where
  "to_feature_id x = x mod 2 ^ 16"

definition independent_feature_name :: "feature_id_t \<Rightarrow> string" where
  "independent_feature_name i = feature_sym @ to_string i"

text \<open>
  The names of composite features start from \<^verbatim>\<open>ids.at(0)\<close>, which throws on an empty
  vector, and append one operand per further id.
\<close>

definition or_feature_name :: "feature_id_t list \<Rightarrow> error + string" where
  "or_feature_name ids =
     (case ids of
        [] \<Rightarrow> Inl Out_of_range
      | i0 # rest \<Rightarrow>
          Inr (foldl (\<lambda>result i. result @ feature_separator @ feature_or @ feature_separator
                                    @ feature_sym @ to_string i)
                 (feature_sym @ to_string i0) rest))"

definition and_feature_name :: "feature_id_t list \<Rightarrow> error + string" where
  "and_feature_name ids =
     (case ids of
        [] \<Rightarrow> Inl Out_of_range
      | i0 # rest \<Rightarrow>
          Inr (foldl (\<lambda>result i. result @ feature_separator @ feature_and @ feature_separator
                                    @ feature_sym @ to_string i)
                 (feature_sym @ to_string i0) rest))"

definition not_feature_name :: "feature_id_t \<Rightarrow> string" where
  "not_feature_name i = feature_not @ feature_sym @ to_string i"

definition or_not_feature_name :: "feature_id_t list \<Rightarrow> error + string" where
  "or_not_feature_name ids =
     (case ids of
        [] \<Rightarrow> Inl Out_of_range
      | i0 # rest \<Rightarrow>
          Inr (foldl (\<lambda>result i. result @ feature_separator @ feature_or @ feature_separator
                                    @ feature_not @ feature_sym @ to_string i)
                 (feature_not @ feature_sym @ to_string i0) rest))"

definition and_not_feature_name :: "feature_id_t list \<Rightarrow> error + string" where
  "and_not_feature_name ids =
     (case ids of
        [] \<Rightarrow> Inl Out_of_range
      | i0 # rest \<Rightarrow>
          Inr (foldl (\<lambda>result i. result @ feature_separator @ feature_and @ feature_separator
                                    @ feature_not @ feature_sym @ to_string i)
                 (feature_not @ feature_sym @ to_string i0) rest))"

definition system_name :: "feature_id_t \<Rightarrow> string" where
  "system_name n = system_sym @ to_string n"

section \<open>Values of composite features (features.hpp)\<close>

type_synonym feature_expression_t = "(string \<times> maxnat_t) list"

text \<open>
  \<^verbatim>\<open>idf.at(v - 1)\<close> throws when \<open>v = 0\<close> (the index wraps around) or \<open>v\<close> exceeds the
  size of the collection.
\<close>

definition value_at :: "feature_expression_t \<Rightarrow> feature_id_t \<Rightarrow> error + maxnat_t" where
  "value_at idf v = (if v = 0 \<or> length idf < v then Inl Out_of_range else Inr (snd (idf ! (v - 1))))"

fun or_value_loop :: "feature_id_t list \<Rightarrow> feature_expression_t \<Rightarrow> maxnat_t \<Rightarrow> error + maxnat_t" where
  "or_value_loop [] idf result = Inr result"
| "or_value_loop (v # ids) idf result =
     (case value_at idf v of
        Inl e \<Rightarrow> Inl e
      | Inr x \<Rightarrow> or_value_loop ids idf (result OR x))"

fun and_value_loop :: "feature_id_t list \<Rightarrow> feature_expression_t \<Rightarrow> maxnat_t \<Rightarrow> error + maxnat_t" where
  "and_value_loop [] idf result = Inr result"
| "and_value_loop (v # ids) idf result =
     (case value_at idf v of
        Inl e \<Rightarrow> Inl e
      | Inr x \<Rightarrow> and_value_loop ids idf (result AND x))"

definition or_feature_value :: "feature_id_t list \<Rightarrow> feature_expression_t \<Rightarrow> error + maxnat_t" where
  "or_feature_value ids idf = or_value_loop ids idf 0"

definition and_feature_value :: "feature_id_t list \<Rightarrow> feature_expression_t \<Rightarrow> error + maxnat_t" where
  "and_feature_value ids idf = and_value_loop ids idf (NOT 0)"

definition or_not_feature_value :: "feature_id_t list \<Rightarrow> feature_expression_t \<Rightarrow> error + maxnat_t" where
  "or_not_feature_value ids nf = or_value_loop ids nf 0"

definition and_not_feature_value ::
  "feature_id_t list \<Rightarrow> feature_expression_t \<Rightarrow> maxnat_t \<Rightarrow> error + maxnat_t" where
  "and_not_feature_value ids nf bitmask = and_value_loop ids nf (NOT bitmask)"

text \<open>
  \<^verbatim>\<open>unsigned2vector\<close>: the ids \<open>bit + 1\<close> of the bits set in \<open>u\<close>, for
  \<open>bit = 0, ..., 63\<close>.
\<close>

definition unsigned2vector :: "maxnat_t \<Rightarrow> feature_id_t list" where
  "unsigned2vector u = map Suc (filter (\<lambda>b. u AND push_bit b 1 \<noteq> 0) [0..<64])"


section \<open>The k-combination generator (features.hpp and fl.cpp)\<close>

text \<open>
  \<^verbatim>\<open>initialize\<close> pushes \<open>start++\<close> once for \<open>i = k, ..., 1\<close>.
\<close>

primrec initialize_loop :: "nat \<Rightarrow> nat \<Rightarrow> nat list \<Rightarrow> nat list" where
  "initialize_loop 0 start state = state"
| "initialize_loop (Suc i) start state = initialize_loop i (Suc start) (state @ [start])"

text \<open>
  The inner loop of \<^verbatim>\<open>next\<close>:
  \<^verbatim>\<open>for (auto j { i }; j < m_state.size(); ++j) m_state.at(j) = m_state.at(j - 1) + 1;\<close>
\<close>

function reset_from :: "nat list \<Rightarrow> nat \<Rightarrow> nat list" where
  "reset_from state j =
     (if j < length state then reset_from (state[j := state ! (j - 1) + 1]) (Suc j) else state)"
  by pat_completeness auto
termination
  by (relation "measure (\<lambda>(state, j). length state - j)") auto

declare reset_from.simps [simp del]

text \<open>
  The outer loop of \<^verbatim>\<open>next\<close>, for \<open>i = m_state.size(), ..., 1\<close>; \<open>n\<close> is
  \<^verbatim>\<open>m_symbols.size()\<close> in features.hpp and \<^verbatim>\<open>m_n\<close> in fl.cpp. The test
  \<^verbatim>\<open>v + 1 + k() - i < n\<close> is computed in \<^verbatim>\<open>size_t\<close>: when \<open>i\<close> exceeds \<open>v + 1 + k\<close> the
  difference wraps around to a value that is not below \<open>n\<close>.
\<close>

primrec next_scan :: "nat \<Rightarrow> nat \<Rightarrow> nat \<Rightarrow> nat list \<Rightarrow> bool \<times> nat list" where
  "next_scan 0 n k state = (False, state)"
| "next_scan (Suc i') n k state =
     (let v = state ! i'
      in if v < n \<and> Suc i' \<le> v + 1 + k \<and> v + 1 + k - Suc i' < n
         then (True, reset_from (state[i' := v + 1]) (Suc i'))
         else next_scan i' n k state)"

subsection \<open>The class template of features.hpp\<close>

record 'a combination_t =
  m_symbols :: "'a list"
  m_state :: "nat list"
  m_k :: nat

definition initialize :: "'a combination_t \<Rightarrow> 'a combination_t" where
  "initialize c = c\<lparr>m_state := initialize_loop (m_k c) 0 (m_state c)\<rparr>"

definition make_combination :: "'a list \<Rightarrow> nat \<Rightarrow> error + 'a combination_t" where
  "make_combination symbols k =
     (if k > length symbols
      then Inl (Logic_error (''n = '' @ to_string (length symbols) @ '', k = '' @ to_string k
                              @ '' violates n >= k!'' @ [CHR 0x0A]))
      else Inr (initialize \<lparr>m_symbols = symbols, m_state = [], m_k = k\<rparr>))"

definition next_combination :: "'a combination_t \<Rightarrow> bool \<times> 'a combination_t" where
  "next_combination c =
     (case next_scan (length (m_state c)) (length (m_symbols c)) (m_k c) (m_state c) of
        (found, state') \<Rightarrow> (found, c\<lparr>m_state := state'\<rparr>))"

text \<open>\<^verbatim>\<open>operator()\<close>: the symbols at the indices of the state; \<^verbatim>\<open>at\<close> throws out of range.\<close>

definition current :: "'a combination_t \<Rightarrow> error + 'a list" where
  "current c =
     (if \<forall>e \<in> set (m_state c). e < length (m_symbols c)
      then Inr (map (\<lambda>e. m_symbols c ! e) (m_state c))
      else Inl Out_of_range)"

lemma reset_from_length [simp]: "length (reset_from state j) = length state"
  by (induction state j rule: reset_from.induct) (subst reset_from.simps, simp)

lemma reset_from_take: "take j (reset_from state j) = take j state"
proof (induction state j rule: reset_from.induct)
  case (1 state j)
  show ?case
  proof (cases "j < length state")
    case True
    let ?st = "state[j := state ! (j - 1) + 1]"
    have "take j (reset_from state j) = take j (reset_from ?st (Suc j))"
      using True by (subst reset_from.simps) simp
    also have "\<dots> = take j (take (Suc j) (reset_from ?st (Suc j)))"
      by (simp add: min_absorb1)
    also have "take (Suc j) (reset_from ?st (Suc j)) = take (Suc j) ?st"
      using True by (rule "1.IH")
    also have "take j (take (Suc j) ?st) = take j state"
      by (simp add: min_absorb1)
    finally show ?thesis .
  next
    case False
    then show ?thesis by (subst reset_from.simps) simp
  qed
qed

lemma next_scan_True:
  assumes "next_scan i n k state = (True, state')" and "i \<le> length state"
  shows "\<exists>p < i. state ! p < n \<and> Suc p \<le> state ! p + 1 + k \<and> state ! p + k - p < n \<and>
           (\<forall>q. p < q \<and> q < i \<longrightarrow> \<not> (state ! q < n \<and> Suc q \<le> state ! q + 1 + k \<and> state ! q + k - q < n)) \<and>
           state' = reset_from (state[p := state ! p + 1]) (Suc p)"
  using assms
proof (induction i)
  case 0
  then show ?case by simp
next
  case (Suc i)
  show ?case
  proof (cases "state ! i < n \<and> Suc i \<le> state ! i + 1 + k \<and> state ! i + 1 + k - Suc i < n")
    case True
    with Suc.prems have "state' = reset_from (state[i := state ! i + 1]) (Suc i)"
      by (simp add: Let_def)
    with True show ?thesis
      by (intro exI [of _ i]) auto
  next
    case False
    with Suc.prems have "next_scan i n k state = (True, state')"
      by (auto simp: Let_def)
    with Suc obtain p where p: "p < i" "state ! p < n" "Suc p \<le> state ! p + 1 + k" "state ! p + k - p < n"
      "\<forall>q. p < q \<and> q < i \<longrightarrow> \<not> (state ! q < n \<and> Suc q \<le> state ! q + 1 + k \<and> state ! q + k - q < n)"
      "state' = reset_from (state[p := state ! p + 1]) (Suc p)"
      by auto
    have "\<forall>q. p < q \<and> q < Suc i \<longrightarrow> \<not> (state ! q < n \<and> Suc q \<le> state ! q + 1 + k \<and> state ! q + k - q < n)"
    proof (intro allI impI)
      fix q assume "p < q \<and> q < Suc i"
      then consider "q < i" | "q = i" by linarith
      then show "\<not> (state ! q < n \<and> Suc q \<le> state ! q + 1 + k \<and> state ! q + k - q < n)"
      proof cases
        case 1 with p(5) \<open>p < q \<and> q < Suc i\<close> show ?thesis by blast
      next
        case 2 with False show ?thesis by auto
      qed
    qed
    with p show ?thesis
      by (intro exI [of _ p]) auto
  qed
qed

lemma next_combination_decreases:
  assumes "next_combination c = (True, c')"
  shows "(map (\<lambda>x. length (m_symbols c') - x) (m_state c'),
          map (\<lambda>x. length (m_symbols c) - x) (m_state c)) \<in> lex less_than"
    and "m_symbols c' = m_symbols c" and "m_k c' = m_k c" and "length (m_state c') = length (m_state c)"
proof -
  let ?n = "length (m_symbols c)" and ?st = "m_state c"
  obtain st' where scan: "next_scan (length ?st) ?n (m_k c) ?st = (True, st')" and c': "c' = c\<lparr>m_state := st'\<rparr>"
    using assms by (auto simp: next_combination_def split: prod.splits)
  from next_scan_True [OF scan] obtain p where p: "p < length ?st" "?st ! p < ?n"
    "st' = reset_from (?st[p := ?st ! p + 1]) (Suc p)"
    by auto
  show "m_symbols c' = m_symbols c" "m_k c' = m_k c" using c' by simp_all
  show len: "length (m_state c') = length (m_state c)" using c' p by simp
  have tk: "take (Suc p) st' = take p ?st @ [?st ! p + 1]"
    using p by (simp add: reset_from_take take_Suc_conv_app_nth)
  have st': "st' = take p ?st @ (?st ! p + 1) # drop (Suc p) st'"
  proof -
    have "st' = take (Suc p) st' @ drop (Suc p) st'" by simp
    then show ?thesis unfolding tk by simp
  qed
  have st: "?st = take p ?st @ ?st ! p # drop (Suc p) ?st"
    using p by (simp add: id_take_nth_drop [symmetric])
  let ?f = "\<lambda>x. ?n - x"
  have 1: "map ?f st' = map ?f (take p ?st) @ ?f (?st ! p + 1) # map ?f (drop (Suc p) st')"
    by (subst st') simp
  have 2: "map ?f ?st = map ?f (take p ?st) @ ?f (?st ! p) # map ?f (drop (Suc p) ?st)"
    by (subst st) simp
  have "(map ?f st', map ?f ?st) \<in> lex less_than"
    unfolding lex_conv
    apply (rule CollectI, rule case_prodI, intro conjI)
    using len c' apply simp
    apply (rule exI [of _ "map ?f (take p ?st)"], rule exI [of _ "?f (?st ! p + 1)"],
        rule exI [of _ "?f (?st ! p)"], rule exI [of _ "map ?f (drop (Suc p) st')"],
        rule exI [of _ "map ?f (drop (Suc p) ?st)"])
    using 1 2 p by simp
  then show "(map (\<lambda>x. length (m_symbols c') - x) (m_state c'),
          map (\<lambda>x. length (m_symbols c) - x) (m_state c)) \<in> lex less_than"
    using c' by simp
qed

text \<open>
  The loop around the generator, as every caller writes it:
  \<^verbatim>\<open>do { result.push_back(g(c())); } while (c.next());\<close>
  with the function \<open>g\<close> applied to each combination (a name, a name with its value, or
  the combination itself) and the collection \<open>result\<close> built so far.
\<close>

function collect_combinations ::
  "('a list \<Rightarrow> error + 'b) \<Rightarrow> 'a combination_t \<Rightarrow> 'b list \<Rightarrow> error + 'b list" where
  "collect_combinations g c result =
     (case current c of
        Inl e \<Rightarrow> Inl e
      | Inr ids \<Rightarrow>
          (case g ids of
             Inl e \<Rightarrow> Inl e
           | Inr x \<Rightarrow>
               (case next_combination c of
                  (True, c') \<Rightarrow> collect_combinations g c' (result @ [x])
                | (False, c') \<Rightarrow> Inr (result @ [x]))))"
  by pat_completeness auto
termination
  apply (relation "inv_image (lex less_than) (\<lambda>(g, c, result). map (\<lambda>x. length (m_symbols c) - x) (m_state c))")
   apply (intro wf_inv_image wf_lex, simp)
  apply (auto dest!: next_combination_decreases(1) [OF sym])
  done

declare collect_combinations.simps [simp del]


subsection \<open>The class of fl.cpp\<close>

text \<open>
  The elements are \<^verbatim>\<open>unsigned short\<close> there; a state element never exceeds \<open>n\<close>, which is
  itself an \<^verbatim>\<open>unsigned short\<close>, so no increment wraps around.
\<close>

record fl_combination_t =
  fl_state :: "nat list"
  fl_k :: nat
  fl_n :: nat

definition fl_make_combination :: "nat \<Rightarrow> nat \<Rightarrow> error + fl_combination_t" where
  "fl_make_combination n k =
     (if k > n then Inl (Domain_error ''k > n'')
      else if n = 0 then Inl (Domain_error ''n == 0'')
      else Inr \<lparr>fl_state = initialize_loop k 0 [], fl_k = k, fl_n = n\<rparr>)"

definition fl_next :: "fl_combination_t \<Rightarrow> bool \<times> fl_combination_t" where
  "fl_next c =
     (case next_scan (length (fl_state c)) (fl_n c) (fl_k c) (fl_state c) of
        (found, state') \<Rightarrow> (found, c\<lparr>fl_state := state'\<rparr>))"

definition fl_current :: "fl_combination_t \<Rightarrow> nat list" where
  "fl_current c = fl_state c"

section \<open>The feature taxonomy and the systems (features.hpp, \<^verbatim>\<open>feature_location_t\<close>)\<close>

record feature_location_t =
  m_n :: feature_id_t
  m_F :: maxnat_t
  m_M :: model_id_t
  m_S :: maxnat_t
  m_O :: maxnat_t
  m_A :: maxnat_t
  m_N :: maxnat_t
  m_ON :: maxnat_t
  m_AN :: maxnat_t
  m_I :: maxnat_t
  m_T :: maxnat_t
  m_D :: maxnat_t
  m_raw_independent_features :: "feature_id_t list"
  m_raw_dependent_features :: "feature_id_t list list"
  m_all_systems :: "string list list"

text \<open>Sequencing of computations that may throw.\<close>

definition bind_error :: "error + 'a \<Rightarrow> ('a \<Rightarrow> error + 'b) \<Rightarrow> error + 'b" where
  "bind_error m f = (case m of Inl e \<Rightarrow> Inl e | Inr x \<Rightarrow> f x)"

text \<open>Feature names of one system, from the ids \<open>f\<close> of its independent features.\<close>

definition generate_independent_features :: "feature_id_t list \<Rightarrow> string list" where
  "generate_independent_features f = map independent_feature_name f"

text \<open>
  \<^verbatim>\<open>generate_or_features(f)\<close>: for every id \<open>i\<close> of \<open>f\<close> and every dependent feature
  \<open>j\<close>, the name of \<open>j\<close> is computed, and pushed if \<open>j\<close> contains \<open>i\<close> and the name is
  new.
\<close>

fun or_features_inner ::
  "(feature_id_t list \<Rightarrow> error + string) \<Rightarrow> feature_id_t \<Rightarrow> feature_id_t list list \<Rightarrow>
   string list \<Rightarrow> error + string list" where
  "or_features_inner name i [] result = Inr result"
| "or_features_inner name i (j # js) result =
     bind_error (name j) (\<lambda>t.
       or_features_inner name i js
         (if contains j i \<and> \<not> contains result t then result @ [t] else result))"

fun or_features_outer ::
  "(feature_id_t list \<Rightarrow> error + string) \<Rightarrow> feature_id_t list \<Rightarrow> feature_id_t list list \<Rightarrow>
   string list \<Rightarrow> error + string list" where
  "or_features_outer name [] js result = Inr result"
| "or_features_outer name (i # f) js result =
     bind_error (or_features_inner name i js result) (\<lambda>result'.
       or_features_outer name f js result')"

definition generate_or_features ::
  "'a feature_location_t_scheme \<Rightarrow> feature_id_t list \<Rightarrow> error + string list" where
  "generate_or_features t f =
     (if hasO (m_M t)
      then bind_error (or_features_outer or_feature_name f (m_raw_dependent_features t) [])
             (\<lambda>result. Inr (sort result))
      else Inr [])"

text \<open>
  \<^verbatim>\<open>generate_and_features(f)\<close>: a dependent feature is valid when \<open>f\<close> contains all its
  ids; the names of the valid ones are pushed.
\<close>

fun and_features_loop ::
  "(feature_id_t list \<Rightarrow> error + string) \<Rightarrow> feature_id_t list \<Rightarrow> feature_id_t list list \<Rightarrow>
   string list \<Rightarrow> error + string list" where
  "and_features_loop name f [] result = Inr result"
| "and_features_loop name f (i # is) result =
     (if \<forall>j \<in> set i. contains f j
      then bind_error (name i) (\<lambda>t. and_features_loop name f is (result @ [t]))
      else and_features_loop name f is result)"

definition generate_and_features ::
  "'a feature_location_t_scheme \<Rightarrow> feature_id_t list \<Rightarrow> error + string list" where
  "generate_and_features t f =
     (if hasA (m_M t)
      then bind_error (and_features_loop and_feature_name f (m_raw_dependent_features t) [])
             (\<lambda>result. Inr (sort result))
      else Inr [])"

definition generate_not_features ::
  "'a feature_location_t_scheme \<Rightarrow> feature_id_t list \<Rightarrow> string list" where
  "generate_not_features t nf =
     (if hasN (m_M t) then map not_feature_name (negate nf (m_n t)) else [])"

definition generate_or_not_features ::
  "'a feature_location_t_scheme \<Rightarrow> feature_id_t list \<Rightarrow> error + string list" where
  "generate_or_not_features t nf =
     (if hasON (m_M t)
      then bind_error
             (or_features_outer or_not_feature_name (negate nf (m_n t)) (m_raw_dependent_features t) [])
             (\<lambda>result. Inr (sort result))
      else Inr [])"

definition generate_and_not_features ::
  "'a feature_location_t_scheme \<Rightarrow> feature_id_t list \<Rightarrow> error + string list" where
  "generate_and_not_features t nf =
     (if hasAN (m_M t)
      then bind_error
             (and_features_loop and_not_feature_name (negate nf (m_n t)) (m_raw_dependent_features t) [])
             (\<lambda>result. Inr (sort result))
      else Inr [])"

definition generate_system ::
  "'a feature_location_t_scheme \<Rightarrow> feature_id_t list \<Rightarrow> error + string list" where
  "generate_system t f =
     bind_error (generate_or_features t f) (\<lambda>or_part.
     bind_error (generate_and_features t f) (\<lambda>and_part.
     bind_error (generate_or_not_features t f) (\<lambda>or_not_part.
     bind_error (generate_and_not_features t f) (\<lambda>and_not_part.
       Inr (sort (generate_independent_features f @ or_part @ and_part
                  @ generate_not_features t f @ or_not_part @ and_not_part))))))"

text \<open>\<^verbatim>\<open>generate_all_systems\<close>: one system for every \<open>s = 0, ..., S - 1\<close>.\<close>

fun all_systems_loop ::
  "'a feature_location_t_scheme \<Rightarrow> nat \<Rightarrow> nat \<Rightarrow> string list list \<Rightarrow> error + string list list" where
  "all_systems_loop t s 0 result = Inr result"
| "all_systems_loop t s (Suc todo) result =
     bind_error (generate_system t (unsigned2vector (of_nat s))) (\<lambda>sys.
       all_systems_loop t (Suc s) todo (result @ [sys]))"

definition generate_all_systems :: "'a feature_location_t_scheme \<Rightarrow> error + string list list" where
  "generate_all_systems t = all_systems_loop t 0 (unat (m_S t)) []"

text \<open>
  The loop of the constructor that fills \<^verbatim>\<open>m_raw_dependent_features\<close>, for
  \<open>i = 2, ..., n\<close>; the first argument counts the sizes still to do.
\<close>

fun raw_dependent_loop ::
  "nat \<Rightarrow> feature_id_t list \<Rightarrow> nat \<Rightarrow> feature_id_t list list \<Rightarrow> error + feature_id_t list list" where
  "raw_dependent_loop 0 raw i result = Inr result"
| "raw_dependent_loop (Suc todo) raw i result =
     bind_error (make_combination raw i) (\<lambda>c.
     bind_error (collect_combinations Inr c result) (\<lambda>result'.
       raw_dependent_loop todo raw (Suc i) result'))"

text \<open>
  The constructor. The counts are computed first, in the order of the member
  declarations; the conditional sums are only evaluated for the active categories.
\<close>

definition count_if :: "bool \<Rightarrow> error + maxnat_t \<Rightarrow> error + maxnat_t" where
  "count_if active c = (if active then c else Inr 0)"

definition make_feature_location :: "feature_id_t \<Rightarrow> feature_id_t \<Rightarrow> error + feature_location_t" where
  "make_feature_location n' m' =
     bind_error (count_if (hasO m') (sum_of_combinations (of_nat n') 2)) (\<lambda>c_O.
     bind_error (count_if (hasA m') (sum_of_combinations (of_nat n') 2)) (\<lambda>c_A.
     bind_error (count_if (hasON m') (sum_of_combinations (of_nat n') 2)) (\<lambda>c_ON.
     bind_error (count_if (hasAN m') (sum_of_combinations (of_nat n') 2)) (\<lambda>c_AN.
     let c_N = (if hasN m' then of_nat n' else 0);
         raw = [1..<Suc n']
     in bind_error (raw_dependent_loop (n' - 1) raw 2 []) (\<lambda>dependent.
        let t = \<lparr>m_n = n', m_F = of_nat n', m_M = m', m_S = power2_u (of_nat n'),
                 m_O = c_O, m_A = c_A, m_N = c_N, m_ON = c_ON, m_AN = c_AN,
                 m_I = c_O + c_A + c_N + c_AN + c_ON,
                 m_T = of_nat n' + c_O + c_A + c_N + c_AN + c_ON,
                 m_D = power2_u (power2_u (of_nat n')),
                 m_raw_independent_features = raw,
                 m_raw_dependent_features = dependent,
                 m_all_systems = []\<rparr>
        in bind_error (generate_all_systems t) (\<lambda>systems.
             Inr (t\<lparr>m_all_systems := systems\<rparr>)))))))"


section \<open>Difference expressions of systems (features.hpp)\<close>

text \<open>
  A \<^verbatim>\<open>std::set<std::string>\<close> is a set of strings; its iteration order is the order of
  the strings, \<^verbatim>\<open>size()\<close> is the cardinality and \<^verbatim>\<open>*begin()\<close> the least element.
\<close>

record systems_difference_t =
  intersections :: "string set"
  unions :: "string set"

record system_feature_difference_t =
  difference_id :: maxnat_t
  feature :: string
  difference :: systems_difference_t

type_synonym features_isolation_t = "string \<rightharpoonup> systems_difference_t"
type_synonym differences_t = "system_feature_difference_t list"

section \<open>Enumeration strategy (features.hpp, \<^verbatim>\<open>feature_location_isolation_t\<close>)\<close>

text \<open>
  The feature names of all systems: one loop per category, for \<open>k = 2, ..., n\<close> (for
  the or-not- and and-not-features \<open>k = 2, ..., N\<close>), each around a combination
  generator over the raw independent features.
\<close>

fun names_loop ::
  "(feature_id_t list \<Rightarrow> error + 'b) \<Rightarrow> nat \<Rightarrow> feature_id_t list \<Rightarrow> nat \<Rightarrow> 'b list \<Rightarrow>
   error + 'b list" where
  "names_loop g 0 raw k result = Inr result"
| "names_loop g (Suc todo) raw k result =
     bind_error (make_combination raw k) (\<lambda>combination.
     bind_error (collect_combinations g combination result) (\<lambda>result'.
       names_loop g todo raw (Suc k) result'))"

definition all_independent_features :: "'a feature_location_t_scheme \<Rightarrow> string list" where
  "all_independent_features t = generate_independent_features (m_raw_independent_features t)"

definition all_or_features :: "'a feature_location_t_scheme \<Rightarrow> error + string list" where
  "all_or_features t =
     (if hasO (m_M t)
      then names_loop or_feature_name (m_n t - 1) (m_raw_independent_features t) 2 []
      else Inr [])"

definition all_and_features :: "'a feature_location_t_scheme \<Rightarrow> error + string list" where
  "all_and_features t =
     (if hasA (m_M t)
      then names_loop and_feature_name (m_n t - 1) (m_raw_independent_features t) 2 []
      else Inr [])"

definition all_not_features :: "'a feature_location_t_scheme \<Rightarrow> string list" where
  "all_not_features t =
     (if hasN (m_M t) then map not_feature_name (m_raw_independent_features t) else [])"

definition all_or_not_features :: "'a feature_location_t_scheme \<Rightarrow> error + string list" where
  "all_or_not_features t =
     (if hasON (m_M t)
      then names_loop or_not_feature_name (unat (m_N t) - 1) (m_raw_independent_features t) 2 []
      else Inr [])"

definition all_and_not_features :: "'a feature_location_t_scheme \<Rightarrow> error + string list" where
  "all_and_not_features t =
     (if hasAN (m_M t)
      then names_loop and_not_feature_name (unat (m_N t) - 1) (m_raw_independent_features t) 2 []
      else Inr [])"

record feature_location_isolation_t = feature_location_t +
  m_independent_features :: "string list"
  m_or_features :: "string list"
  m_and_features :: "string list"
  m_not_features :: "string list"
  m_or_not_features :: "string list"
  m_and_not_features :: "string list"
  m_all_features :: "string list"
  m_feature_isolations :: features_isolation_t

text \<open>
  \<^verbatim>\<open>generate_feature_isolations\<close>: the inner loop numbers the systems from 1 and
  inserts the name of each into the intersection part or the union part;
  \<^verbatim>\<open>system_name\<close> takes its number as a \<^verbatim>\<open>feature_id_t\<close>. \<^verbatim>\<open>std::map::insert\<close> keeps an
  entry that is already there.
\<close>

fun isolation_loop ::
  "string \<Rightarrow> string list list \<Rightarrow> nat \<Rightarrow> systems_difference_t \<Rightarrow> systems_difference_t" where
  "isolation_loop f [] system_no d = d"
| "isolation_loop f (s # systems) system_no d =
     (let system_no' = Suc system_no
      in isolation_loop f systems system_no'
           (if contains s f
            then d\<lparr>intersections := insert (system_name (to_feature_id system_no')) (intersections d)\<rparr>
            else d\<lparr>unions := insert (system_name (to_feature_id system_no')) (unions d)\<rparr>))"

definition map_insert :: "('k \<rightharpoonup> 'v) \<Rightarrow> 'k \<Rightarrow> 'v \<Rightarrow> ('k \<rightharpoonup> 'v)" where
  "map_insert m k v = (if k \<in> dom m then m else m(k \<mapsto> v))"

fun feature_isolations_loop ::
  "string list \<Rightarrow> string list list \<Rightarrow> features_isolation_t \<Rightarrow> features_isolation_t" where
  "feature_isolations_loop [] systems result = result"
| "feature_isolations_loop (f # fs) systems result =
     feature_isolations_loop fs systems
       (map_insert result f (isolation_loop f systems 0 \<lparr>intersections = {}, unions = {}\<rparr>))"

definition generate_feature_isolations :: "string list \<Rightarrow> string list list \<Rightarrow> features_isolation_t" where
  "generate_feature_isolations all_features all_systems =
     feature_isolations_loop all_features all_systems Map.empty"

definition make_feature_location_isolation ::
  "feature_id_t \<Rightarrow> feature_id_t \<Rightarrow> error + feature_location_isolation_t" where
  "make_feature_location_isolation n' m' =
     bind_error (make_feature_location n' m') (\<lambda>t.
     bind_error (all_or_features t) (\<lambda>or_features.
     bind_error (all_and_features t) (\<lambda>and_features.
     bind_error (all_or_not_features t) (\<lambda>or_not_features.
     bind_error (all_and_not_features t) (\<lambda>and_not_features.
       let independent_features = all_independent_features t;
           not_features = all_not_features t;
           all_features = sort (independent_features @ or_features @ and_features
                                @ not_features @ or_not_features @ and_not_features)
       in Inr (feature_location_t.extend t
                 \<lparr>m_independent_features = independent_features,
                  m_or_features = or_features,
                  m_and_features = and_features,
                  m_not_features = not_features,
                  m_or_not_features = or_not_features,
                  m_and_not_features = and_not_features,
                  m_all_features = all_features,
                  m_feature_isolations = generate_feature_isolations all_features (m_all_systems t)\<rparr>))))))"


section \<open>Exhaustive ID-search strategy (features.hpp, \<^verbatim>\<open>feature_location_differences_t\<close>)\<close>

text \<open>
  \<^verbatim>\<open>std::stoull\<close> in base 10: leading white space is skipped, a sign is accepted, and the
  longest run of digits is converted. No digit gives \<^verbatim>\<open>std::invalid_argument\<close>, a value
  of \<open>2 ^ 64\<close> or more \<^verbatim>\<open>std::out_of_range\<close>; a minus sign negates modulo \<open>2 ^ 64\<close>.
\<close>

definition is_space :: "char \<Rightarrow> bool" where
  "is_space c \<longleftrightarrow> c \<in> {CHR '' '', CHR 0x09, CHR 0x0A, CHR 0x0B, CHR 0x0C, CHR 0x0D}"

definition is_digit :: "char \<Rightarrow> bool" where
  "is_digit c \<longleftrightarrow> c \<in> set ''0123456789''"

definition digit_value :: "char \<Rightarrow> nat" where
  "digit_value c = of_char c - 48"

definition digits_value :: "string \<Rightarrow> nat" where
  "digits_value ds = foldl (\<lambda>acc c. 10 * acc + digit_value c) 0 ds"

definition stoull :: "string \<Rightarrow> error + maxnat_t" where
  "stoull s =
     (let s1 = dropWhile is_space s;
          negative = (case s1 of c # r \<Rightarrow> c = CHR ''-'' | [] \<Rightarrow> False);
          s2 = (case s1 of c # r \<Rightarrow> if c = CHR ''-'' \<or> c = CHR ''+'' then r else s1 | [] \<Rightarrow> s1);
          ds = takeWhile is_digit s2
      in if ds = [] then Inl (Invalid_argument ''stoull'')
         else if digits_value ds \<ge> 2 ^ 64 then Inl Out_of_range
         else Inr (if negative then - of_nat (digits_value ds) else of_nat (digits_value ds)))"

text \<open>
  \<^verbatim>\<open>system2features\<close>: the features of the system with the given name;
  \<^verbatim>\<open>all_systems().at(pos - 1)\<close> throws when \<open>pos\<close> is 0 or exceeds the number of systems.
\<close>

definition system2features :: "'a feature_location_t_scheme \<Rightarrow> string \<Rightarrow> error + string set" where
  "system2features t s =
     (if length s < length system_sym + 1 \<or> take (length system_sym) s \<noteq> system_sym
      then Inl (Logic_error (s @ '' is not a system identifier.''))
      else bind_error (stoull (drop (length system_sym) s)) (\<lambda>pos.
             if pos = 0 \<or> length (m_all_systems t) < unat pos then Inl Out_of_range
             else Inr (set (m_all_systems t ! (unat pos - 1)))))"

text \<open>
  \<^verbatim>\<open>generate_difference\<close>: system \<open>position + 1\<close> goes to the intersection part when
  \<^verbatim>\<open>s & 1ull << position\<close> is not zero, for \<open>position = 0, ..., S - 1\<close>. The shift is
  defined in C++ for \<open>position < 64\<close> only. \<^verbatim>\<open>calculate_difference\<close> of the closed-form
  strategy runs the same loop.
\<close>

fun difference_loop :: "maxnat_t \<Rightarrow> nat \<Rightarrow> nat \<Rightarrow> systems_difference_t \<Rightarrow> systems_difference_t" where
  "difference_loop s position 0 result = result"
| "difference_loop s position (Suc todo) result =
     difference_loop s (Suc position) todo
       (if s AND push_bit position 1 \<noteq> 0
        then result\<lparr>intersections := insert (system_name (to_feature_id (position + 1))) (intersections result)\<rparr>
        else result\<lparr>unions := insert (system_name (to_feature_id (position + 1))) (unions result)\<rparr>)"

definition generate_difference :: "'a feature_location_t_scheme \<Rightarrow> maxnat_t \<Rightarrow> systems_difference_t" where
  "generate_difference t s = difference_loop s 0 (unat (m_S t)) \<lparr>intersections = {}, unions = {}\<rparr>"

text \<open>
  \<^verbatim>\<open>evaluate_intersections\<close>: starts from the features of the first system of the
  intersection part and intersects with those of each further one, leaving the loop as
  soon as the result is empty.
\<close>

fun intersections_loop ::
  "'a feature_location_t_scheme \<Rightarrow> string list \<Rightarrow> string set \<Rightarrow> error + string set" where
  "intersections_loop t [] result = Inr result"
| "intersections_loop t (x # xs) result =
     (case system2features t x of
        Inl e \<Rightarrow> Inl e
      | Inr right \<Rightarrow>
          (let result' = result \<inter> right
           in if card result' = 0 then Inr result' else intersections_loop t xs result'))"

definition evaluate_intersections ::
  "'a feature_location_t_scheme \<Rightarrow> systems_difference_t \<Rightarrow> error + string set" where
  "evaluate_intersections t diff =
     (if card (intersections diff) \<ge> 1
      then (case sorted_list_of_set (intersections diff) of
              [] \<Rightarrow> Inr {}
            | first # rest \<Rightarrow>
                (case system2features t first of
                   Inl e \<Rightarrow> Inl e
                 | Inr result \<Rightarrow> intersections_loop t rest result))
      else Inr {})"

fun unions_loop ::
  "'a feature_location_t_scheme \<Rightarrow> string list \<Rightarrow> string set \<Rightarrow> error + string set" where
  "unions_loop t [] result = Inr result"
| "unions_loop t (x # xs) result =
     (case system2features t x of
        Inl e \<Rightarrow> Inl e
      | Inr right \<Rightarrow> unions_loop t xs (result \<union> right))"

definition evaluate_unions ::
  "'a feature_location_t_scheme \<Rightarrow> systems_difference_t \<Rightarrow> error + string set" where
  "evaluate_unions t diff =
     (if card (unions diff) \<ge> 1
      then (case sorted_list_of_set (unions diff) of
              [] \<Rightarrow> Inr {}
            | first # rest \<Rightarrow>
                (case system2features t first of
                   Inl e \<Rightarrow> Inl e
                 | Inr result \<Rightarrow> unions_loop t rest result))
      else Inr {})"

definition evaluate_difference ::
  "'a feature_location_t_scheme \<Rightarrow> systems_difference_t \<Rightarrow> error + string set" where
  "evaluate_difference t diff =
     (case evaluate_intersections t diff of
        Inl e \<Rightarrow> Inl e
      | Inr is \<Rightarrow>
          (case evaluate_unions t diff of
             Inl e \<Rightarrow> Inl e
           | Inr us \<Rightarrow> Inr (is - us)))"

text \<open>
  \<^verbatim>\<open>generate_non_empty_differences\<close>: the loop over the difference IDs
  \<open>e = 1, ..., D - 1\<close>.
\<close>

function non_empty_differences_loop ::
  "'a feature_location_t_scheme \<Rightarrow> nat \<Rightarrow> differences_t \<Rightarrow> error + differences_t" where
  "non_empty_differences_loop t e result =
     (if e < unat (m_D t)
      then (let diff = generate_difference t (of_nat e)
            in case evaluate_difference t diff of
                 Inl err \<Rightarrow> Inl err
               | Inr res \<Rightarrow>
                   if card res > 0
                   then if card res \<noteq> 1
                        then Inl (Length_error (''Set size = '' @ to_string (card res) @ '', must be 1!''))
                        else non_empty_differences_loop t (Suc e)
                               (result @ [\<lparr>difference_id = of_nat e, feature = Min res, difference = diff\<rparr>])
                   else non_empty_differences_loop t (Suc e) result)
      else Inr result)"
  by pat_completeness auto
termination
  by (relation "measure (\<lambda>(t, e, result). unat (m_D t) - e)") auto

declare non_empty_differences_loop.simps [simp del]

definition generate_non_empty_differences :: "'a feature_location_t_scheme \<Rightarrow> error + differences_t" where
  "generate_non_empty_differences t = non_empty_differences_loop t 1 []"

text \<open>
  The constructor of \<^verbatim>\<open>feature_location_differences_t\<close> builds the base object of the
  enumeration strategy and then the non-empty differences from it.
\<close>

definition make_feature_location_differences ::
  "feature_id_t \<Rightarrow> feature_id_t \<Rightarrow> error + (feature_location_isolation_t \<times> differences_t)" where
  "make_feature_location_differences n' m' =
     bind_error (make_feature_location_isolation n' m') (\<lambda>t.
     bind_error (generate_non_empty_differences t) (\<lambda>ds. Inr (t, ds)))"

section \<open>Closed-form bitmask strategy (features.hpp, \<^verbatim>\<open>feature_location_calculation_t\<close>)\<close>

text \<open>
  The inner loop of \<^verbatim>\<open>calculate_independent_features\<close>, run \<open>power2(n) - 1\<close> times on
  the value, the bit and the counter; \<open>period\<close> is \<open>power2(f)\<close>.
\<close>

primrec independent_value_loop ::
  "nat \<Rightarrow> maxnat_t \<Rightarrow> maxnat_t \<times> maxnat_t \<times> maxnat_t \<Rightarrow> maxnat_t \<times> maxnat_t \<times> maxnat_t" where
  "independent_value_loop 0 period st = st"
| "independent_value_loop (Suc todo) period st =
     (case st of (val, b, counter) \<Rightarrow>
        let val1 = val OR b;
            counter' = counter - 1;
            val2 = push_bit 1 val1
        in if counter' = 0
           then independent_value_loop todo period (val2, (if b = 1 then 0 else 1), period)
           else independent_value_loop todo period (val2, b, counter'))"

definition independent_value :: "feature_id_t \<Rightarrow> nat \<Rightarrow> maxnat_t" where
  "independent_value n f =
     fst (independent_value_loop (unat (power2_u (of_nat n) - 1)) (power2_u (of_nat f))
            (0, 1, power2_u (of_nat f)))"

definition calculate_independent_features :: "'a feature_location_t_scheme \<Rightarrow> feature_expression_t" where
  "calculate_independent_features t =
     map (\<lambda>f. (independent_feature_name (to_feature_id (f + 1)), independent_value (m_n t) f))
       [0..<m_n t]"

definition named_value ::
  "(feature_id_t list \<Rightarrow> error + string) \<Rightarrow> (feature_id_t list \<Rightarrow> error + maxnat_t) \<Rightarrow>
   feature_id_t list \<Rightarrow> error + string \<times> maxnat_t" where
  "named_value name val ids =
     bind_error (name ids) (\<lambda>x. bind_error (val ids) (\<lambda>v. Inr (x, v)))"

definition calculate_or_features ::
  "'a feature_location_t_scheme \<Rightarrow> feature_expression_t \<Rightarrow> error + feature_expression_t" where
  "calculate_or_features t independent_features =
     (if hasO (m_M t)
      then names_loop (named_value or_feature_name (\<lambda>ids. or_feature_value ids independent_features))
             (m_n t - 1) (m_raw_independent_features t) 2 []
      else Inr [])"

definition calculate_and_features ::
  "'a feature_location_t_scheme \<Rightarrow> feature_expression_t \<Rightarrow> error + feature_expression_t" where
  "calculate_and_features t independent_features =
     (if hasA (m_M t)
      then names_loop (named_value and_feature_name (\<lambda>ids. and_feature_value ids independent_features))
             (m_n t - 1) (m_raw_independent_features t) 2 []
      else Inr [])"

definition calculate_not_features ::
  "'a feature_location_t_scheme \<Rightarrow> maxnat_t \<Rightarrow> feature_expression_t \<Rightarrow> feature_expression_t" where
  "calculate_not_features t systems_bitmask independent_features =
     (if hasN (m_M t)
      then map (\<lambda>f. (feature_not @ fst f, not_feature_value systems_bitmask (snd f))) independent_features
      else [])"

definition calculate_or_not_features ::
  "'a feature_location_t_scheme \<Rightarrow> feature_expression_t \<Rightarrow> error + feature_expression_t" where
  "calculate_or_not_features t not_features =
     (if hasON (m_M t)
      then names_loop (named_value or_not_feature_name (\<lambda>ids. or_not_feature_value ids not_features))
             (m_n t - 1) (m_raw_independent_features t) 2 []
      else Inr [])"

definition calculate_and_not_features ::
  "'a feature_location_t_scheme \<Rightarrow> maxnat_t \<Rightarrow> feature_expression_t \<Rightarrow> error + feature_expression_t" where
  "calculate_and_not_features t systems_bitmask not_features =
     (if hasAN (m_M t)
      then names_loop
             (named_value and_not_feature_name
                (\<lambda>ids. and_not_feature_value ids not_features systems_bitmask))
             (m_n t - 1) (m_raw_independent_features t) 2 []
      else Inr [])"

definition calculate_difference ::
  "'a feature_location_t_scheme \<Rightarrow> maxnat_t \<Rightarrow> string \<Rightarrow> system_feature_difference_t" where
  "calculate_difference t index name =
     \<lparr>difference_id = index, feature = name,
      difference = difference_loop index 0 (unat (m_S t)) \<lparr>intersections = {}, unions = {}\<rparr>\<rparr>"

text \<open>
  \<^verbatim>\<open>calculate_differences\<close> sorts by difference ID with \<^verbatim>\<open>std::sort\<close>, which is not
  stable: the result is a rearrangement of the entries in ascending order of their IDs,
  and the order of entries with the same ID is left open. The sorting procedure is
  therefore a parameter \<open>std_sort\<close> of the model, and \<open>is_std_sort\<close> says what the source
  may rely on.
\<close>

definition is_std_sort :: "(differences_t \<Rightarrow> differences_t) \<Rightarrow> bool" where
  "is_std_sort std_sort \<longleftrightarrow>
     (\<forall>xs. mset (std_sort xs) = mset xs \<and> sorted (map difference_id (std_sort xs)))"

definition calculate_differences ::
  "(differences_t \<Rightarrow> differences_t) \<Rightarrow> 'a feature_location_t_scheme \<Rightarrow> feature_expression_t \<Rightarrow>
   differences_t" where
  "calculate_differences std_sort t all_features =
     std_sort (map (\<lambda>(name, v). calculate_difference t v name) all_features)"

record feature_location_calculation_t = feature_location_t +
  m_systems_bitmask :: maxnat_t
  m_differences :: differences_t
  m_independent_features_c :: feature_expression_t
  m_or_features_c :: feature_expression_t
  m_and_features_c :: feature_expression_t
  m_not_features_c :: feature_expression_t
  m_or_not_features_c :: feature_expression_t
  m_and_not_features_c :: feature_expression_t
  m_all_features_c :: feature_expression_t

definition make_feature_location_calculation ::
  "(differences_t \<Rightarrow> differences_t) \<Rightarrow> feature_id_t \<Rightarrow> feature_id_t \<Rightarrow>
   error + feature_location_calculation_t" where
  "make_feature_location_calculation std_sort n' m' =
     bind_error (make_feature_location n' m') (\<lambda>t.
     let systems_bitmask = initialize_bitmask (m_S t);
         independent_features = calculate_independent_features t
     in bind_error (calculate_or_features t independent_features) (\<lambda>or_features.
        bind_error (calculate_and_features t independent_features) (\<lambda>and_features.
        let not_features = calculate_not_features t systems_bitmask independent_features
        in bind_error (calculate_or_not_features t not_features) (\<lambda>or_not_features.
           bind_error (calculate_and_not_features t systems_bitmask not_features) (\<lambda>and_not_features.
           let all_features = independent_features @ or_features @ and_features
                              @ not_features @ or_not_features @ and_not_features
           in Inr (feature_location_t.extend t
                    \<lparr>m_systems_bitmask = systems_bitmask,
                     m_differences = calculate_differences std_sort t all_features,
                     m_independent_features_c = independent_features,
                     m_or_features_c = or_features,
                     m_and_features_c = and_features,
                     m_not_features_c = not_features,
                     m_or_not_features_c = or_not_features,
                     m_and_not_features_c = and_not_features,
                     m_all_features_c = all_features\<rparr>))))))"


section \<open>Notions used to state the properties\<close>

text \<open>
  A \<open>k\<close>-combination of \<open>{0..n-1}\<close> is a strictly increasing list of \<open>k\<close> indices
  below \<open>n\<close>. Lists of indices are compared lexicographically (the order \<open><\<close> on
  lists).
\<close>

definition is_combination :: "nat \<Rightarrow> nat \<Rightarrow> nat list \<Rightarrow> bool" where
  "is_combination n k st \<longleftrightarrow> length st = k \<and> sorted_wrt (<) st \<and> (\<forall>x \<in> set st. x < n)"

text \<open>
  The state that follows \<open>st\<close> when position \<open>p\<close> is incremented, the combinations
  from \<open>st\<close> on and all combinations, in increasing order.
\<close>

definition successor_at :: "nat \<Rightarrow> nat list \<Rightarrow> nat list" where
  "successor_at p st = take p st @ map (\<lambda>d. st ! p + 1 + d) [0..<length st - p]"

definition combinations_from :: "nat \<Rightarrow> nat \<Rightarrow> nat list \<Rightarrow> nat list list" where
  "combinations_from n k st = sorted_list_of_set {d. is_combination n k d \<and> st \<le> d}"

definition all_combinations :: "nat \<Rightarrow> nat \<Rightarrow> nat list list" where
  "all_combinations n k = sorted_list_of_set {d. is_combination n k d}"


subsection \<open>Feature terms\<close>

text \<open>
  The features of a taxonomy as terms over the ids of the independent features, the
  name of a term, and when a term holds in the system whose present independent features
  are \<open>P\<close> (\<open>n\<close> is the number of independent features).
\<close>

datatype feature_term =
    F_indep feature_id_t
  | F_or "feature_id_t list"
  | F_and "feature_id_t list"
  | F_not feature_id_t
  | F_or_not "feature_id_t list"
  | F_and_not "feature_id_t list"

definition tail_name :: "string \<Rightarrow> feature_id_t list \<Rightarrow> string" where
  "tail_name sep rest = concat (map (\<lambda>i. sep @ to_string i) rest)"

definition composite_name :: "string \<Rightarrow> string \<Rightarrow> feature_id_t list \<Rightarrow> string" where
  "composite_name pre sep ids =
     (case ids of [] \<Rightarrow> [] | i0 # rest \<Rightarrow> pre @ to_string i0 @ tail_name sep rest)"

fun term_name :: "feature_term \<Rightarrow> string" where
  "term_name (F_indep i) = ''f'' @ to_string i"
| "term_name (F_or ids) = composite_name ''f'' '' + f'' ids"
| "term_name (F_and ids) = composite_name ''f'' '' * f'' ids"
| "term_name (F_not i) = ''!f'' @ to_string i"
| "term_name (F_or_not ids) = composite_name ''!f'' '' + !f'' ids"
| "term_name (F_and_not ids) = composite_name ''!f'' '' * !f'' ids"

fun holds :: "nat \<Rightarrow> feature_term \<Rightarrow> feature_id_t set \<Rightarrow> bool" where
  "holds n (F_indep i) P \<longleftrightarrow> i \<in> P"
| "holds n (F_or ids) P \<longleftrightarrow> set ids \<inter> P \<noteq> {}"
| "holds n (F_and ids) P \<longleftrightarrow> set ids \<subseteq> P"
| "holds n (F_not i) P \<longleftrightarrow> i \<in> {1..n} - P"
| "holds n (F_or_not ids) P \<longleftrightarrow> set ids \<inter> ({1..n} - P) \<noteq> {}"
| "holds n (F_and_not ids) P \<longleftrightarrow> set ids \<subseteq> {1..n} - P"

text \<open>
  The combinations of at least two of the ids \<open>1, ..., n\<close>, by size and in lexicographic
  order, and the terms of the taxonomy of \<open>n\<close> independent features and model \<open>M\<close>, by
  category.
\<close>

definition dependent_ids :: "nat \<Rightarrow> feature_id_t list list" where
  "dependent_ids n = concat (map (\<lambda>k. map (map Suc) (all_combinations n k)) [2..<Suc n])"

definition feature_terms :: "nat \<Rightarrow> model_id_t \<Rightarrow> feature_term list" where
  "feature_terms n M =
     map F_indep [1..<Suc n]
     @ (if hasO M then map F_or (dependent_ids n) else [])
     @ (if hasA M then map F_and (dependent_ids n) else [])
     @ (if hasN M then map F_not [1..<Suc n] else [])
     @ (if hasON M then map F_or_not (dependent_ids n) else [])
     @ (if hasAN M then map F_and_not (dependent_ids n) else [])"

text \<open>The ids of the features present in the system with index \<open>s\<close>.\<close>

definition present :: "nat \<Rightarrow> feature_id_t set" where
  "present s = {Suc b |b. bit s b}"

definition well_named :: "feature_term \<Rightarrow> bool" where
  "well_named d =
     (case d of
        F_indep i \<Rightarrow> True
      | F_or ids \<Rightarrow> 2 \<le> length ids
      | F_and ids \<Rightarrow> 2 \<le> length ids
      | F_not i \<Rightarrow> True
      | F_or_not ids \<Rightarrow> 2 \<le> length ids
      | F_and_not ids \<Rightarrow> 2 \<le> length ids)"

definition system_terms :: "nat \<Rightarrow> model_id_t \<Rightarrow> feature_id_t set \<Rightarrow> feature_term set" where
  "system_terms n M P = {d \<in> set (feature_terms n M). holds n d P}"

definition is_taxonomy :: "nat \<Rightarrow> model_id_t \<Rightarrow> 'a feature_location_t_scheme \<Rightarrow> bool" where
  "is_taxonomy n M t \<longleftrightarrow>
     m_n t = n \<and> m_M t = M \<and> m_S t = 2 ^ n \<and> m_D t = 2 ^ (2 ^ n) \<and>
     m_N t = (if hasN M then of_nat n else 0) \<and>
     m_raw_independent_features t = [1..<Suc n] \<and>
     m_raw_dependent_features t = dependent_ids n \<and>
     length (m_all_systems t) = 2 ^ n \<and>
     (\<forall>p<2 ^ n. set (m_all_systems t ! p) = term_name ` system_terms n M (present p))"

definition wf_ids :: "nat \<Rightarrow> feature_id_t list \<Rightarrow> bool" where
  "wf_ids n A \<longleftrightarrow> 2 \<le> length A \<and> sorted_wrt (<) A \<and> set A \<subseteq> {1..n}"

definition wf_term :: "nat \<Rightarrow> feature_term \<Rightarrow> bool" where
  "wf_term n d =
     (case d of
        F_indep i \<Rightarrow> i \<in> {1..n}
      | F_or A \<Rightarrow> wf_ids n A
      | F_and A \<Rightarrow> wf_ids n A
      | F_not i \<Rightarrow> i \<in> {1..n}
      | F_or_not A \<Rightarrow> wf_ids n A
      | F_and_not A \<Rightarrow> wf_ids n A)"

fun dual :: "feature_term \<Rightarrow> feature_term" where
  "dual (F_indep i) = F_not i"
| "dual (F_or A) = F_or_not A"
| "dual (F_and A) = F_and_not A"
| "dual (F_not i) = F_indep i"
| "dual (F_or_not A) = F_or A"
| "dual (F_and_not A) = F_and A"

definition sysname :: "nat \<Rightarrow> string" where
  "sysname q = system_name (to_feature_id (Suc q))"

section \<open>Theorems\<close>

lemma model_range_cases:
  assumes "M \<in> {1..19::nat}"
  shows "M = 1 \<or> M = 2 \<or> M = 3 \<or> M = 4 \<or> M = 5 \<or> M = 6 \<or> M = 7 \<or> M = 8 \<or> M = 9 \<or> M = 10 \<or>
         M = 11 \<or> M = 12 \<or> M = 13 \<or> M = 14 \<or> M = 15 \<or> M = 16 \<or> M = 17 \<or> M = 18 \<or> M = 19"
  using assms by (simp only: atLeastAtMost_iff) arith

lemma model_flags_inj_on: "inj_on model_flags {1..19}"
proof (rule inj_onI)
  fix x y :: nat
  assume x: "x \<in> {1..19}" and y: "y \<in> {1..19}" and eq: "model_flags x = model_flags y"
  from model_range_cases [OF x] model_range_cases [OF y] eq
  show "x = y"
    by (elim disjE; simp add: model_flags_def hasO_def hasA_def hasN_def hasON_def hasAN_def)
qed

text \<open>
  C10: for every model id in 1..19, or-not-features and and-not-features are only active
  when not-features are, and no two model ids in 1..19 have the same five predicates.
\<close>

theorem catalog_prerequisite_and_distinct:
  "(\<forall>M\<in>{1..19}. (hasON M \<longrightarrow> hasN M) \<and> (hasAN M \<longrightarrow> hasN M)) \<and>
   (\<forall>M\<in>{1..19}. \<forall>M'\<in>{1..19}. M \<noteq> M' \<longrightarrow> model_flags M \<noteq> model_flags M')"
proof (intro conjI ballI impI)
  fix M :: nat
  assume "hasON M" then show "hasN M"
    unfolding hasON_def hasN_def by blast
next
  fix M :: nat
  assume "hasAN M" then show "hasN M"
    unfolding hasAN_def hasN_def by blast
next
  fix M M' :: nat
  assume "M \<in> {1..19}" "M' \<in> {1..19}" "M \<noteq> M'"
  then show "model_flags M \<noteq> model_flags M'"
    using model_flags_inj_on by (auto dest: inj_onD)
qed

theorem catalog_prerequisite_and_distinct_witness:
  "(9::nat) \<in> {1..19} \<and> (17::nat) \<in> {1..19} \<and> hasON 9 \<and> hasN 9 \<and> hasAN 17 \<and> hasN 17 \<and>
   model_flags 9 \<noteq> model_flags 17"
proof -
  have m9: "(9::nat) \<in> {1..19}" and m17: "(17::nat) \<in> {1..19}" by simp_all
  have a: "hasON 9" and b: "hasAN 17" by (simp_all add: hasON_def hasAN_def)
  from catalog_prerequisite_and_distinct m9 m17 a b
  have "hasN 9" "hasN 17" "model_flags 9 \<noteq> model_flags 17"
    by (blast, blast, fastforce)
  with m9 m17 a b show ?thesis by blast
qed


lemma bitmask_loop_mask: "bitmask_loop n = mask n"
  by (induction n) (simp_all add: mask_Suc_exp or.commute)

lemma not_feature_value_xor: "not_feature_value (initialize_bitmask S) v = v XOR mask (unat S)"
  by (simp add: not_feature_value_def initialize_bitmask_def bitmask_loop_mask bit_eq_iff bit_simps)

lemma negate_from_eq: "i \<le> length de \<Longrightarrow> negate_from de i = take i de @ map Not (drop i de)"
proof (induction de i rule: negate_from.induct)
  case (1 de i)
  show ?case
  proof (cases "i < length de")
    case True
    have "negate_from de i = negate_from (de[i := \<not> de ! i]) (Suc i)"
      using True by (subst negate_from.simps) simp
    also have "\<dots> = take (Suc i) (de[i := \<not> de ! i]) @ map Not (drop (Suc i) (de[i := \<not> de ! i]))"
      using True by (intro "1.IH") simp_all
    also have "\<dots> = take i de @ map Not (drop i de)"
      using True by (simp add: take_Suc_conv_app_nth Cons_nth_drop_Suc [symmetric])
    finally show ?thesis .
  next
    case False
    with 1 show ?thesis by (subst negate_from.simps) simp
  qed
qed

lemma de_not_map: "de_not de = map Not de"
  by (simp add: de_not_def negate_from_eq)

text \<open>
  C9: on a value \<open>v\<close> with no bit above the \<open>S\<close> low positions, the not-transform
  \<open>v \<mapsto> ~(v ^ systems_bitmask)\<close> of the closed-form strategy is its own inverse and its
  result again has no bit above the \<open>S\<close> low positions; \<^verbatim>\<open>operator~\<close> of fl.cpp applied
  twice returns the original vector and keeps its length.
\<close>

theorem complement_involutive:
  assumes "unat S \<le> 64" and "take_bit (unat S) v = v"
  shows "not_feature_value (initialize_bitmask S) (not_feature_value (initialize_bitmask S) v) = v \<and>
         take_bit (unat S) (not_feature_value (initialize_bitmask S) v) = not_feature_value (initialize_bitmask S) v \<and>
         de_not (de_not de) = de \<and> length (de_not de) = length de"
proof -
  have "take_bit (unat S) (v XOR mask (unat S)) = v XOR mask (unat S)"
    using assms(2) by (simp add: take_bit_xor flip: take_bit_eq_mask)
  then show ?thesis
    by (simp add: not_feature_value_xor de_not_map xor.assoc comp_def)
qed

theorem complement_involutive_witness:
  "unat (4 :: 64 word) \<le> 64 \<and> take_bit (unat (4 :: 64 word)) (10 :: 64 word) = 10 \<and>
   not_feature_value (initialize_bitmask 4) (not_feature_value (initialize_bitmask 4) 10) = 10 \<and>
   not_feature_value (initialize_bitmask 4) 10 = 5 \<and>
   de_not (de_not [False, True]) = [False, True]"
proof -
  have a: "unat (4 :: 64 word) \<le> 64" by simp
  have b: "take_bit (unat (4 :: 64 word)) (10 :: 64 word) = 10" by simp
  have c: "not_feature_value (initialize_bitmask 4) 10 = 5"
    by (simp add: not_feature_value_xor mask_numeral)
  from complement_involutive [OF a b, of "[False, True]"] a b c show ?thesis by simp
qed

lemma power_loop_eq: "power_loop n b r = r * b ^ n"
  by (induction n arbitrary: r) (simp_all add: mult.assoc)

lemma power_u_eq: "power_u b e = b ^ unat e"
  by (simp add: power_u_def power_loop_eq)

lemma power2_u_eq: "power2_u e = 2 ^ unat e"
  by (simp add: power2_u_def power_u_eq)

text \<open>
  C7 (the code departs from the claim): for \<open>F = 1\<close> and \<open>F = 2\<close>,
  \<^verbatim>\<open>print_independent_features\<close> writes \<open>S\<close> bits per feature, most significant bit
  first, while \<^verbatim>\<open>print_independent_features_alt\<close> writes \<open>S - 1\<close> bits: its loop stops
  before \<open>s = 1\<close> and leaves out the bit of system 1.
\<close>

theorem print_alt_omits_system_1:
  "print_independent_features (make_generator 1) = Inr (''f1'' @ [CHR 0x09] @ ''10'' @ [CHR 0x0A]) \<and>
   print_independent_features_alt (make_generator 1) = Inr (''f1'' @ [CHR 0x09] @ ''1'' @ [CHR 0x0A]) \<and>
   print_independent_features (make_generator 2)
     = Inr (''f1'' @ [CHR 0x09] @ ''1010'' @ [CHR 0x0A] @ ''f2'' @ [CHR 0x09] @ ''1100'' @ [CHR 0x0A]) \<and>
   print_independent_features_alt (make_generator 2)
     = Inr (''f1'' @ [CHR 0x09] @ ''101'' @ [CHR 0x0A] @ ''f2'' @ [CHR 0x09] @ ''110'' @ [CHR 0x0A])"
  by code_simp


subsection \<open>The combination generator\<close>


lemma list_less_iff_nth:
  fixes xs ys :: "nat list"
  assumes "length xs = length ys"
  shows "xs < ys \<longleftrightarrow> (\<exists>r < length xs. take r xs = take r ys \<and> xs ! r < ys ! r)"
  using assms
proof (induction xs ys rule: list_induct2)
  case Nil
  then show ?case by simp
next
  case (Cons x xs y ys)
  show ?case
  proof
    assume "x # xs < y # ys"
    then consider "x < y" | "x = y" "xs < ys" by auto
    then show "\<exists>r<length (x # xs). take r (x # xs) = take r (y # ys) \<and> (x # xs) ! r < (y # ys) ! r"
    proof cases
      case 1
      then show ?thesis by (intro exI [of _ 0]) simp
    next
      case 2
      with Cons.IH obtain r where "r < length xs" "take r xs = take r ys" "xs ! r < ys ! r" by auto
      with 2 show ?thesis by (intro exI [of _ "Suc r"]) simp
    qed
  next
    assume "\<exists>r<length (x # xs). take r (x # xs) = take r (y # ys) \<and> (x # xs) ! r < (y # ys) ! r"
    then obtain r where r: "r < length (x # xs)" "take r (x # xs) = take r (y # ys)" "(x # xs) ! r < (y # ys) ! r"
      by blast
    show "x # xs < y # ys"
    proof (cases r)
      case 0
      with r show ?thesis by simp
    next
      case (Suc r')
      with r have "x = y" "r' < length xs" "take r' xs = take r' ys" "xs ! r' < ys ! r'" by auto
      with Cons.IH show ?thesis by auto
    qed
  qed
qed

lemma sorted_gap:
  fixes c :: "nat list"
  assumes "sorted_wrt (<) c" "q \<le> r" "r < length c"
  shows "c ! q + (r - q) \<le> c ! r"
  using assms(2,3)
proof (induction r)
  case 0
  then show ?case by simp
next
  case (Suc r)
  show ?case
  proof (cases "q = Suc r")
    case True
    then show ?thesis by simp
  next
    case False
    with Suc.prems have "q \<le> r" "r < length c" by simp_all
    with Suc.IH have "c ! q + (r - q) \<le> c ! r" by simp
    moreover have "c ! r < c ! Suc r"
      using assms(1) Suc.prems by (simp add: sorted_wrt_nth_less)
    ultimately show ?thesis using \<open>q \<le> r\<close> by simp
  qed
qed

lemma combination_nth_upper:
  assumes "is_combination n k c" "q < k"
  shows "c ! q + k \<le> n + q"
proof -
  from assms have len: "length c = k" and sorted: "sorted_wrt (<) c" and "c ! (k - 1) < n"
    by (auto simp: is_combination_def)
  from sorted_gap [OF sorted, of q "k - 1"] assms(2) len
  have "c ! q + (k - 1 - q) \<le> c ! (k - 1)" by simp
  with \<open>c ! (k - 1) < n\<close> assms(2) show ?thesis by simp
qed


lemma list_less_iff_index:
  fixes xs ys :: "nat list"
  assumes "length xs = length ys"
  shows "xs < ys \<longleftrightarrow> (\<exists>r < length xs. (\<forall>q < r. xs ! q = ys ! q) \<and> xs ! r < ys ! r)"
proof -
  have "take r xs = take r ys \<longleftrightarrow> (\<forall>q < r. xs ! q = ys ! q)" if "r < length xs" for r
  proof
    assume eq: "take r xs = take r ys"
    show "\<forall>q < r. xs ! q = ys ! q"
    proof (intro allI impI)
      fix q assume "q < r"
      then have "xs ! q = take r xs ! q" "ys ! q = take r ys ! q" by simp_all
      with eq show "xs ! q = ys ! q" by simp
    qed
  next
    assume "\<forall>q < r. xs ! q = ys ! q"
    with that assms show "take r xs = take r ys"
      by (intro nth_take_lemma) simp_all
  qed
  then show ?thesis
    unfolding list_less_iff_nth [OF assms] by blast
qed

lemma pointwise_le_imp_le:
  fixes xs ys :: "nat list"
  assumes "length xs = length ys" "\<forall>q < length xs. xs ! q \<le> ys ! q"
  shows "xs \<le> ys"
proof (rule ccontr)
  assume "\<not> xs \<le> ys"
  then have "ys < xs" by simp
  then obtain r where "r < length ys" "ys ! r < xs ! r"
    using list_less_iff_index [of ys xs] assms(1) by auto
  with assms show False by (simp add: leD)
qed

lemma reset_from_nth:
  assumes "0 < j" "j \<le> length st" "q < length st"
  shows "reset_from st j ! q = (if q < j then st ! q else st ! (j - 1) + 1 + (q - j))"
  using assms
proof (induction st j rule: reset_from.induct)
  case (1 st j)
  show ?case
  proof (cases "j < length st")
    case True
    let ?a = "st ! (j - 1) + 1"
    let ?st = "st[j := ?a]"
    have "reset_from st j ! q = reset_from ?st (Suc j) ! q"
      using True by (subst reset_from.simps) simp
    also have "\<dots> = (if q < Suc j then ?st ! q else ?st ! (Suc j - 1) + 1 + (q - Suc j))"
      using True "1.prems" by (intro "1.IH") simp_all
    also have "\<dots> = (if q < j then st ! q else st ! (j - 1) + 1 + (q - j))"
      using True "1.prems" by (auto simp: nth_list_update less_Suc_eq)
    finally show ?thesis .
  next
    case False
    with 1 show ?thesis by (subst reset_from.simps) simp
  qed
qed

lemma successor_at_length [simp]: "p < length st \<Longrightarrow> length (successor_at p st) = length st"
  by (simp add: successor_at_def)

lemma successor_at_nth:
  assumes "p < length st" "q < length st"
  shows "successor_at p st ! q = (if q < p then st ! q else st ! p + 1 + (q - p))"
  using assms by (auto simp: successor_at_def nth_append)

lemma reset_from_successor:
  assumes "p < length st"
  shows "reset_from (st[p := st ! p + 1]) (Suc p) = successor_at p st"
proof (rule nth_equalityI)
  show "length (reset_from (st[p := st ! p + 1]) (Suc p)) = length (successor_at p st)"
    using assms by simp
next
  fix q assume "q < length (reset_from (st[p := st ! p + 1]) (Suc p))"
  then have q: "q < length st" by simp
  with assms show "reset_from (st[p := st ! p + 1]) (Suc p) ! q = successor_at p st ! q"
    by (subst reset_from_nth) (auto simp: successor_at_nth nth_list_update less_Suc_eq)
qed

lemma next_scan_False:
  assumes "next_scan i n k state = (False, state')"
  shows "state' = state \<and> (\<forall>q < i. \<not> (state ! q < n \<and> Suc q \<le> state ! q + 1 + k \<and> state ! q + 1 + k - Suc q < n))"
  using assms
proof (induction i)
  case 0
  then show ?case by simp
next
  case (Suc i)
  then have no: "\<not> (state ! i < n \<and> Suc i \<le> state ! i + 1 + k \<and> state ! i + 1 + k - Suc i < n)"
    and "next_scan i n k state = (False, state')"
    by (auto simp: Let_def split: if_splits)
  with Suc.IH have "state' = state"
    and "\<forall>q < i. \<not> (state ! q < n \<and> Suc q \<le> state ! q + 1 + k \<and> state ! q + 1 + k - Suc q < n)"
    by simp_all
  with no show ?case by (auto simp: less_Suc_eq)
qed


lemma combination_nth_less:
  assumes "is_combination n k c" "i < j" "j < k"
  shows "c ! i < c ! j"
  using assms by (simp add: is_combination_def sorted_wrt_nth_less)

lemma combination_nth_bound:
  assumes "is_combination n k c" "q < k"
  shows "c ! q < n"
  using assms by (simp add: is_combination_def)

lemma next_scan_combination_True:
  assumes "is_combination n k st" "next_scan k n k st = (True, st')"
  shows "\<exists>p<k. st ! p + k < n + p \<and> (\<forall>q. p < q \<and> q < k \<longrightarrow> st ! q + k = n + q) \<and>
               st' = successor_at p st"
proof -
  from assms(1) have len: "length st = k" by (simp add: is_combination_def)
  from next_scan_True [OF assms(2)] len obtain p where p: "p < k" "st ! p + k - p < n"
    and right: "\<forall>q. p < q \<and> q < k \<longrightarrow>
          \<not> (st ! q < n \<and> Suc q \<le> st ! q + 1 + k \<and> st ! q + k - q < n)"
    and st': "st' = reset_from (st[p := st ! p + 1]) (Suc p)"
    by auto
  have "st ! q + k = n + q" if "p < q \<and> q < k" for q
  proof -
    from that right have "\<not> (st ! q < n \<and> Suc q \<le> st ! q + 1 + k \<and> st ! q + k - q < n)" by blast
    moreover have "st ! q < n" using assms(1) that by (simp add: combination_nth_bound)
    ultimately have "n \<le> st ! q + k - q" using that by simp
    moreover have "st ! q + k \<le> n + q" using assms(1) that by (simp add: combination_nth_upper)
    ultimately show ?thesis using that by arith
  qed
  moreover have "st ! p + k < n + p" using p by simp
  moreover have "st' = successor_at p st" using st' p len reset_from_successor [of p st] by simp
  ultimately show ?thesis using p(1) by blast
qed

lemma next_scan_combination_False:
  assumes "is_combination n k st" "next_scan k n k st = (False, st')"
  shows "st' = st \<and> (\<forall>q < k. st ! q + k = n + q)"
proof -
  from next_scan_False [OF assms(2)] have eq: "st' = st"
    and no: "\<forall>q < k. \<not> (st ! q < n \<and> Suc q \<le> st ! q + 1 + k \<and> st ! q + 1 + k - Suc q < n)"
    by simp_all
  have "st ! q + k = n + q" if "q < k" for q
  proof -
    from that no have "\<not> (st ! q < n \<and> Suc q \<le> st ! q + 1 + k \<and> st ! q + 1 + k - Suc q < n)" by blast
    moreover have "st ! q < n" using assms(1) that by (simp add: combination_nth_bound)
    ultimately have "n \<le> st ! q + k - q" using that by simp
    moreover have "st ! q + k \<le> n + q" using assms(1) that by (simp add: combination_nth_upper)
    ultimately show ?thesis using that by arith
  qed
  with eq show ?thesis by blast
qed

lemma successor_is_combination:
  assumes "is_combination n k st" "p < k" "st ! p + k < n + p"
  shows "is_combination n k (successor_at p st)"
proof -
  from assms(1) have len: "length st = k" by (simp add: is_combination_def)
  have "sorted_wrt (<) (successor_at p st)"
    unfolding sorted_wrt_iff_nth_less
  proof (intro allI impI)
    fix i j assume ij: "i < j" "j < length (successor_at p st)"
    then have j: "j < k" and i: "i < k" using len assms(2) by simp_all
    consider "j < p" | "i < p" "p \<le> j" | "p \<le> i" by linarith
    then show "successor_at p st ! i < successor_at p st ! j"
    proof cases
      case 1
      then show ?thesis
        using ij i j len assms by (simp add: successor_at_nth combination_nth_less)
    next
      case 2
      then have "st ! i < st ! p" using assms by (simp add: combination_nth_less)
      with 2 show ?thesis using i j len assms(2) by (simp add: successor_at_nth)
    next
      case 3
      then show ?thesis using ij i j len assms(2) by (simp add: successor_at_nth)
    qed
  qed
  moreover have "\<forall>x \<in> set (successor_at p st). x < n"
  proof
    fix x assume "x \<in> set (successor_at p st)"
    then obtain q where q: "q < k" "x = successor_at p st ! q"
      using len assms(2) by (auto simp: in_set_conv_nth)
    show "x < n"
    proof (cases "q < p")
      case True
      with q show ?thesis using len assms by (simp add: successor_at_nth combination_nth_bound)
    next
      case False
      with q show ?thesis using len assms by (simp add: successor_at_nth)
    qed
  qed
  ultimately show ?thesis using len assms(2) by (simp add: is_combination_def)
qed

lemma successor_greater:
  assumes "p < length st"
  shows "st < successor_at p st"
proof -
  have "\<exists>r < length st. (\<forall>q < r. st ! q = successor_at p st ! q) \<and> st ! r < successor_at p st ! r"
    using assms by (intro exI [of _ p]) (simp add: successor_at_nth)
  then show ?thesis using assms by (subst list_less_iff_index) simp_all
qed

lemma successor_least:
  assumes st: "is_combination n k st" and c: "is_combination n k c"
    and p: "p < k" and right: "\<forall>q. p < q \<and> q < k \<longrightarrow> st ! q + k = n + q"
    and less: "st < c"
  shows "successor_at p st \<le> c"
proof (rule ccontr)
  let ?s = "successor_at p st"
  from st c have len: "length st = k" "length c = k" by (simp_all add: is_combination_def)
  assume "\<not> ?s \<le> c"
  then have "c < ?s" by simp
  then obtain r' where r': "r' < k" "\<forall>q < r'. c ! q = ?s ! q" "c ! r' < ?s ! r'"
    using list_less_iff_index [of c ?s] len p by auto
  from less obtain r where r: "r < k" "\<forall>q < r. st ! q = c ! q" "st ! r < c ! r"
    using list_less_iff_index [of st c] len by auto
  have "r \<le> p"
  proof (rule ccontr)
    assume "\<not> r \<le> p"
    then have "st ! r + k = n + r" using right r(1) by simp
    moreover have "c ! r + k \<le> n + r" using c r(1) by (rule combination_nth_upper)
    ultimately show False using r(3) by simp
  qed
  consider "r' < r" | "r' = r" | "r < r'" by linarith
  then show False
  proof cases
    case 1
    then have "c ! r' = st ! r'" using r(2) by simp
    moreover have "?s ! r' = st ! r'" using 1 \<open>r \<le> p\<close> len p r'(1) by (simp add: successor_at_nth)
    ultimately show False using r'(3) by simp
  next
    case 2
    show False
    proof (cases "r < p")
      case True
      then have "?s ! r = st ! r" using len p r(1) by (simp add: successor_at_nth)
      with 2 r(3) r'(3) show False by simp
    next
      case False
      with \<open>r \<le> p\<close> have "r = p" by simp
      then have "?s ! r = st ! p + 1" using len p by (simp add: successor_at_nth)
      with 2 r(3) r'(3) \<open>r = p\<close> show False by simp
    qed
  next
    case 3
    then have cr: "c ! r = ?s ! r" using r'(2) by simp
    have "r = p"
    proof (rule ccontr)
      assume "r \<noteq> p"
      with \<open>r \<le> p\<close> have "r < p" by simp
      then have "?s ! r = st ! r" using len p r(1) by (simp add: successor_at_nth)
      with cr r(3) show False by simp
    qed
    then have "c ! p = st ! p + 1" using cr len p by (simp add: successor_at_nth)
    moreover have "c ! p + (r' - p) \<le> c ! r'"
      using c 3 \<open>r = p\<close> r'(1) len by (intro sorted_gap) (simp_all add: is_combination_def)
    moreover have "?s ! r' = st ! p + 1 + (r' - p)"
      using 3 \<open>r = p\<close> len p r'(1) by (simp add: successor_at_nth)
    ultimately show False using r'(3) by simp
  qed
qed

lemma last_combination_greatest:
  assumes st: "is_combination n k st" and c: "is_combination n k c"
    and all: "\<forall>q < k. st ! q + k = n + q"
  shows "c \<le> st"
proof (rule pointwise_le_imp_le)
  from st c show "length c = length st" by (simp add: is_combination_def)
next
  show "\<forall>q < length c. c ! q \<le> st ! q"
  proof (intro allI impI)
    fix q assume "q < length c"
    then have q: "q < k" using c by (simp add: is_combination_def)
    then have "c ! q + k \<le> n + q" using c by (intro combination_nth_upper)
    moreover have "st ! q + k = n + q" using all q by simp
    ultimately show "c ! q \<le> st ! q" by simp
  qed
qed


lemma initialize_loop_eq: "initialize_loop k start st = st @ [start..<start + k]"
proof (induction k arbitrary: start st)
  case 0
  then show ?case by simp
next
  case (Suc k)
  have "[start..<start + Suc k] = start # [Suc start..<Suc start + k]"
    by (simp add: upt_conv_Cons)
  with Suc show ?case by simp
qed

lemma first_is_combination:
  assumes "k \<le> n"
  shows "is_combination n k [0..<k]"
  using assms by (auto simp: is_combination_def sorted_wrt_iff_nth_less)

lemma first_combination_least:
  assumes "is_combination n k c"
  shows "[0..<k] \<le> c"
proof (rule pointwise_le_imp_le)
  from assms show "length [0..<k] = length c" by (simp add: is_combination_def)
next
  show "\<forall>q<length [0..<k]. [0..<k] ! q \<le> c ! q"
  proof (intro allI impI)
    fix q assume "q < length [0..<k]"
    then have q: "q < k" by simp
    from assms have "sorted_wrt (<) c" "length c = k" by (simp_all add: is_combination_def)
    with sorted_gap [of c 0 q] q have "c ! 0 + q \<le> c ! q" by simp
    with q show "[0..<k] ! q \<le> c ! q" by simp
  qed
qed

lemma combination_set_inj:
  assumes "is_combination n k c" "is_combination n k d" "set c = set d"
  shows "c = d"
  using assms by (auto simp: is_combination_def intro: strict_sorted_equal)

lemma combination_set_image:
  "set ` {d. is_combination n k d} = {B. B \<subseteq> {..<n} \<and> card B = k}"
proof (intro equalityI subsetI)
  fix B assume "B \<in> set ` {d. is_combination n k d}"
  then obtain d where d: "is_combination n k d" "B = set d" by blast
  then have "distinct d" by (auto simp: is_combination_def strict_sorted_iff)
  with d show "B \<in> {B. B \<subseteq> {..<n} \<and> card B = k}"
    by (auto simp: is_combination_def distinct_card)
next
  fix B assume "B \<in> {B. B \<subseteq> {..<n} \<and> card B = k}"
  then have B: "B \<subseteq> {..<n}" "card B = k" by simp_all
  then have fin: "finite B" by (meson finite_lessThan finite_subset)
  let ?d = "sorted_list_of_set B"
  have "is_combination n k ?d"
    using B fin by (auto simp: is_combination_def strict_sorted_iff)
  moreover have "set ?d = B" using fin by simp
  ultimately show "B \<in> set ` {d. is_combination n k d}" by (metis (mono_tags) imageI mem_Collect_eq)
qed

lemma finite_combinations [simp]: "finite {d. is_combination n k d}"
proof (rule finite_imageD)
  show "finite (set ` {d. is_combination n k d})"
    unfolding combination_set_image by simp
next
  show "inj_on set {d. is_combination n k d}"
    by (rule inj_onI) (auto intro: combination_set_inj)
qed

lemma card_combinations: "card {d. is_combination n k d} = n choose k"
proof -
  have "inj_on set {d. is_combination n k d}"
    by (rule inj_onI) (auto intro: combination_set_inj)
  then have "card {d. is_combination n k d} = card (set ` {d. is_combination n k d})"
    by (simp add: card_image)
  also have "\<dots> = n choose k"
    unfolding combination_set_image using n_subsets [of "{..<n}" k] by simp
  finally show ?thesis .
qed

lemma finite_combinations_from [simp]: "finite {d. is_combination n k d \<and> st \<le> d}"
  by (rule finite_subset [OF _ finite_combinations [of n k]]) auto

lemma combinations_from_first:
  "k \<le> n \<Longrightarrow> combinations_from n k [0..<k] = all_combinations n k"
  unfolding combinations_from_def all_combinations_def
  by (rule arg_cong [where f = sorted_list_of_set]) (auto intro: first_combination_least)

lemma combinations_from_step:
  assumes st: "is_combination n k st" and p: "p < k" "st ! p + k < n + p"
    and right: "\<forall>q. p < q \<and> q < k \<longrightarrow> st ! q + k = n + q"
  shows "combinations_from n k st = st # combinations_from n k (successor_at p st)"
proof -
  let ?s = "successor_at p st"
  let ?A = "{d. is_combination n k d \<and> ?s \<le> d}"
  from st have len: "length st = k" by (simp add: is_combination_def)
  have gt: "st < ?s" using p len by (intro successor_greater) simp
  have "{d. is_combination n k d \<and> st \<le> d} = insert st ?A"
  proof (intro equalityI subsetI)
    fix d assume "d \<in> {d. is_combination n k d \<and> st \<le> d}"
    then have d: "is_combination n k d" "st \<le> d" by simp_all
    show "d \<in> insert st ?A"
    proof (cases "d = st")
      case False
      with d have "st < d" by simp
      with successor_least [OF st d(1) p(1) right] d show ?thesis by simp
    qed simp
  next
    fix d assume "d \<in> insert st ?A"
    with st gt show "d \<in> {d. is_combination n k d \<and> st \<le> d}" by auto
  qed
  then have "combinations_from n k st = sorted_list_of_set (insert st ?A)"
    by (simp add: combinations_from_def)
  also have "\<dots> = insort st (sorted_list_of_set (?A - {st}))"
    by (rule sorted_list_of_set_insert_remove) simp
  also have "?A - {st} = ?A" using gt by auto
  also have "insort st (sorted_list_of_set ?A) = st # sorted_list_of_set ?A"
    using gt by (intro insort_is_Cons) auto
  finally show ?thesis by (simp add: combinations_from_def)
qed

lemma combinations_from_last:
  assumes st: "is_combination n k st" and all: "\<forall>q < k. st ! q + k = n + q"
  shows "combinations_from n k st = [st]"
proof -
  have "{d. is_combination n k d \<and> st \<le> d} = {st}"
    using st last_combination_greatest [OF st _ all] by (auto simp: order.antisym)
  then show ?thesis by (simp add: combinations_from_def)
qed



lemma current_combination:
  assumes "is_combination (length (m_symbols c)) (m_k c) (m_state c)"
  shows "current c = Inr (map ((!) (m_symbols c)) (m_state c))"
  using assms by (simp add: current_def is_combination_def)

lemma collect_combinations_eq:
  assumes "is_combination (length (m_symbols c)) (m_k c) (m_state c)"
    and "\<forall>d. is_combination (length (m_symbols c)) (m_k c) d \<longrightarrow> g (map ((!) (m_symbols c)) d) = Inr (h d)"
  shows "collect_combinations g c result
         = Inr (result @ map h (combinations_from (length (m_symbols c)) (m_k c) (m_state c)))"
  using assms
proof (induction g c result rule: collect_combinations.induct)
  case (1 g c result)
  let ?n = "length (m_symbols c)" and ?k = "m_k c" and ?st = "m_state c"
  note valid = "1.prems"(1)
  from valid have len: "length ?st = ?k" by (simp add: is_combination_def)
  have cur: "current c = Inr (map ((!) (m_symbols c)) ?st)"
    using valid by (rule current_combination)
  have gx: "g (map ((!) (m_symbols c)) ?st) = Inr (h ?st)"
    using "1.prems" by blast
  obtain found st' where scan: "next_scan ?k ?n ?k ?st = (found, st')"
    by (cases "next_scan ?k ?n ?k ?st") auto
  then have nxt: "next_combination c = (found, c\<lparr>m_state := st'\<rparr>)"
    by (simp add: next_combination_def len)
  show ?case
  proof (cases found)
    case True
    with scan have "next_scan ?k ?n ?k ?st = (True, st')" by simp
    from next_scan_combination_True [OF valid this] obtain p where p: "p < ?k" "?st ! p + ?k < ?n + p"
      "\<forall>q. p < q \<and> q < ?k \<longrightarrow> ?st ! q + ?k = ?n + q" "st' = successor_at p ?st"
      by blast
    have valid': "is_combination ?n ?k st'"
      using p successor_is_combination [OF valid p(1,2)] by simp
    have "collect_combinations g (c\<lparr>m_state := st'\<rparr>) (result @ [h ?st])
          = Inr ((result @ [h ?st]) @ map h (combinations_from ?n ?k st'))"
    proof -
      have nxt': "(True, c\<lparr>m_state := st'\<rparr>) = next_combination c" using nxt True by simp
      show ?thesis
        using "1.IH" [OF cur gx nxt' refl] valid' "1.prems"(2) by simp
    qed
    moreover have "combinations_from ?n ?k ?st = ?st # combinations_from ?n ?k st'"
      using combinations_from_step [OF valid p(1,2,3)] p(4) by simp
    ultimately show ?thesis
      using cur gx nxt True by (subst collect_combinations.simps) simp
  next
    case False
    with scan have "next_scan ?k ?n ?k ?st = (False, st')" by simp
    from next_scan_combination_False [OF valid this] have "\<forall>q < ?k. ?st ! q + ?k = ?n + q"
      by blast
    then have "combinations_from ?n ?k ?st = [?st]"
      using valid by (intro combinations_from_last)
    then show ?thesis
      using cur gx nxt False by (subst collect_combinations.simps) simp
  qed
qed

lemma make_combination_ok:
  assumes "k \<le> length symbols"
  shows "make_combination symbols k = Inr \<lparr>m_symbols = symbols, m_state = [0..<k], m_k = k\<rparr>"
  using assms by (simp add: make_combination_def initialize_def initialize_loop_eq)

lemma make_combination_error:
  assumes "length symbols < k"
  shows "make_combination symbols k
         = Inl (Logic_error (''n = '' @ to_string (length symbols) @ '', k = '' @ to_string k
                              @ '' violates n >= k!'' @ [CHR 0x0A]))"
  using assms by (simp add: make_combination_def)

lemma names_loop_eq:
  assumes "k + todo \<le> length raw + 1"
    and "\<forall>k' d. k \<le> k' \<and> k' < k + todo \<and> is_combination (length raw) k' d
           \<longrightarrow> g (map ((!) raw) d) = Inr (h d)"
  shows "names_loop g todo raw k result
         = Inr (result @ concat (map (\<lambda>k'. map h (all_combinations (length raw) k')) [k..<k + todo]))"
  using assms
proof (induction todo arbitrary: k result)
  case 0
  then show ?case by simp
next
  case (Suc todo)
  then have k: "k \<le> length raw" by simp
  have g: "\<forall>d. is_combination (length raw) k d \<longrightarrow> g (map ((!) raw) d) = Inr (h d)"
  proof (intro allI impI)
    fix d assume "is_combination (length raw) k d"
    with Suc.prems(2) [rule_format, of k d] show "g (map ((!) raw) d) = Inr (h d)" by simp
  qed
  have collect: "collect_combinations g \<lparr>m_symbols = raw, m_state = [0..<k], m_k = k\<rparr> result
        = Inr (result @ map h (all_combinations (length raw) k))"
    using collect_combinations_eq [of "\<lparr>m_symbols = raw, m_state = [0..<k], m_k = k\<rparr>" g h result]
      k g by (simp add: first_is_combination combinations_from_first)
  have "names_loop g todo raw (Suc k) (result @ map h (all_combinations (length raw) k))
        = Inr ((result @ map h (all_combinations (length raw) k))
               @ concat (map (\<lambda>k'. map h (all_combinations (length raw) k')) [Suc k..<Suc k + todo]))"
  proof (rule Suc.IH)
    show "Suc k + todo \<le> length raw + 1" using Suc.prems(1) by simp
  next
    show "\<forall>k' d. Suc k \<le> k' \<and> k' < Suc k + todo \<and> is_combination (length raw) k' d
            \<longrightarrow> g (map ((!) raw) d) = Inr (h d)"
    proof (intro allI impI)
      fix k' d assume "Suc k \<le> k' \<and> k' < Suc k + todo \<and> is_combination (length raw) k' d"
      with Suc.prems(2) [rule_format, of k' d] show "g (map ((!) raw) d) = Inr (h d)" by simp
    qed
  qed
  moreover have "[k..<k + Suc todo] = k # [Suc k..<Suc k + todo]"
    by (simp add: upt_conv_Cons)
  ultimately show ?case
    using k collect by (simp add: make_combination_ok bind_error_def)
qed

lemma raw_dependent_loop_names_loop: "raw_dependent_loop todo raw i result = names_loop Inr todo raw i result"
proof (induction todo arbitrary: i result)
  case 0
  then show ?case by simp
next
  case (Suc todo)
  have "raw_dependent_loop todo raw (Suc i) = names_loop Inr todo raw (Suc i)"
    by (rule ext) (rule Suc.IH)
  then show ?case by simp
qed



lemma all_combinations_props:
  "length (all_combinations n k) = n choose k"
  "sorted_wrt (<) (all_combinations n k)"
  "set (all_combinations n k) = {d. is_combination n k d}"
proof -
  show "length (all_combinations n k) = n choose k"
    by (simp add: all_combinations_def card_combinations)
  show "sorted_wrt (<) (all_combinations n k)"
    by (simp add: all_combinations_def strict_sorted_iff)
  show "set (all_combinations n k) = {d. is_combination n k d}"
    by (simp add: all_combinations_def)
qed

lemma next_scan_successor:
  assumes valid: "is_combination n k st"
  shows "case next_scan k n k st of
           (found, st') \<Rightarrow>
             if found
             then is_combination n k st' \<and> st < st' \<and>
                  (\<forall>d. is_combination n k d \<and> st < d \<longrightarrow> st' \<le> d)
             else st' = st \<and> (\<forall>d. is_combination n k d \<longrightarrow> d \<le> st)"
proof (cases "next_scan k n k st")
  case (Pair found st')
  from valid have len: "length st = k" by (simp add: is_combination_def)
  show ?thesis
  proof (cases found)
    case True
    with Pair have "next_scan k n k st = (True, st')" by simp
    from next_scan_combination_True [OF valid this] obtain p where p: "p < k" "st ! p + k < n + p"
      "\<forall>q. p < q \<and> q < k \<longrightarrow> st ! q + k = n + q" "st' = successor_at p st"
      by blast
    have "is_combination n k st'"
      using successor_is_combination [OF valid p(1,2)] p(4) by simp
    moreover have "st < st'"
      using successor_greater [of p st] p len by simp
    moreover have "\<forall>d. is_combination n k d \<and> st < d \<longrightarrow> st' \<le> d"
      using successor_least [OF valid _ p(1,3)] p(4) by blast
    ultimately show ?thesis using Pair True by simp
  next
    case False
    with Pair have "next_scan k n k st = (False, st')" by simp
    from next_scan_combination_False [OF valid this]
    have "st' = st" and all: "\<forall>q<k. st ! q + k = n + q" by simp_all
    moreover have "\<forall>d. is_combination n k d \<longrightarrow> d \<le> st"
      using last_combination_greatest [OF valid _ all] by blast
    ultimately show ?thesis using Pair False by simp
  qed
qed

text \<open>
  C8: for \<open>1 \<le> k \<le> n\<close> the generator starts in \<open>[0..k-1]\<close>, the least
  \<open>k\<close>-combination of \<open>{0..n-1}\<close>; \<^verbatim>\<open>next\<close> on a combination either moves to the
  least combination above it and returns true, or returns false and leaves the state,
  which then is the greatest combination; it returns true exactly when a greater
  combination exists. The loop \<^verbatim>\<open>do ... while (c.next())\<close> therefore produces all
  \<open>C(n,k)\<close> combinations once, in strictly increasing lexicographic order. The
  constructors throw when \<open>k > n\<close>. This holds for the class of features.hpp and the
  class of fl.cpp.
\<close>

theorem combination_generator_lexicographic:
  assumes "1 \<le> k" "k \<le> n" "length symbols = n"
  shows "make_combination symbols k = Inr \<lparr>m_symbols = symbols, m_state = [0..<k], m_k = k\<rparr> \<and>
         fl_make_combination n k = Inr \<lparr>fl_state = [0..<k], fl_k = k, fl_n = n\<rparr> \<and>
         is_combination n k [0..<k] \<and> (\<forall>d. is_combination n k d \<longrightarrow> [0..<k] \<le> d) \<and>
         (\<forall>st. is_combination n k st \<longrightarrow>
            (case next_combination \<lparr>m_symbols = symbols, m_state = st, m_k = k\<rparr> of
               (found, c') \<Rightarrow>
                 m_symbols c' = symbols \<and> m_k c' = k \<and>
                 fl_next \<lparr>fl_state = st, fl_k = k, fl_n = n\<rparr>
                   = (found, \<lparr>fl_state = m_state c', fl_k = k, fl_n = n\<rparr>) \<and>
                 found = (\<exists>d. is_combination n k d \<and> st < d) \<and>
                 (if found
                  then is_combination n k (m_state c') \<and> st < m_state c' \<and>
                       (\<forall>d. is_combination n k d \<and> st < d \<longrightarrow> m_state c' \<le> d)
                  else m_state c' = st \<and> (\<forall>d. is_combination n k d \<longrightarrow> d \<le> st)))) \<and>
         (\<exists>L. collect_combinations Inr \<lparr>m_symbols = symbols, m_state = [0..<k], m_k = k\<rparr> []
                 = Inr (map (map ((!) symbols)) L) \<and>
              length L = n choose k \<and> sorted_wrt (<) L \<and> set L = {d. is_combination n k d}) \<and>
         (\<forall>k' > n. (\<exists>msg. make_combination symbols k' = Inl (Logic_error msg)) \<and>
                    fl_make_combination n k' = Inl (Domain_error ''k > n''))"
proof (intro conjI)
  show "make_combination symbols k = Inr \<lparr>m_symbols = symbols, m_state = [0..<k], m_k = k\<rparr>"
    using assms by (simp add: make_combination_ok)
  show "fl_make_combination n k = Inr \<lparr>fl_state = [0..<k], fl_k = k, fl_n = n\<rparr>"
    using assms by (simp add: fl_make_combination_def initialize_loop_eq)
  show "is_combination n k [0..<k]"
    using assms by (simp add: first_is_combination)
  show "\<forall>d. is_combination n k d \<longrightarrow> [0..<k] \<le> d"
    by (simp add: first_combination_least)
  show "\<forall>st. is_combination n k st \<longrightarrow>
            (case next_combination \<lparr>m_symbols = symbols, m_state = st, m_k = k\<rparr> of
               (found, c') \<Rightarrow>
                 m_symbols c' = symbols \<and> m_k c' = k \<and>
                 fl_next \<lparr>fl_state = st, fl_k = k, fl_n = n\<rparr>
                   = (found, \<lparr>fl_state = m_state c', fl_k = k, fl_n = n\<rparr>) \<and>
                 found = (\<exists>d. is_combination n k d \<and> st < d) \<and>
                 (if found
                  then is_combination n k (m_state c') \<and> st < m_state c' \<and>
                       (\<forall>d. is_combination n k d \<and> st < d \<longrightarrow> m_state c' \<le> d)
                  else m_state c' = st \<and> (\<forall>d. is_combination n k d \<longrightarrow> d \<le> st)))"
  proof (intro allI impI)
    fix st assume valid: "is_combination n k st"
    then have len: "length st = k" by (simp add: is_combination_def)
    obtain found st' where scan: "next_scan k n k st = (found, st')"
      by (cases "next_scan k n k st") auto
    from next_scan_successor [OF valid] scan
    have succ: "if found
             then is_combination n k st' \<and> st < st' \<and>
                  (\<forall>d. is_combination n k d \<and> st < d \<longrightarrow> st' \<le> d)
             else st' = st \<and> (\<forall>d. is_combination n k d \<longrightarrow> d \<le> st)"
      by simp
    have "found = (\<exists>d. is_combination n k d \<and> st < d)"
    proof (cases found)
      case True
      with succ show ?thesis by auto
    next
      case False
      with succ have "\<forall>d. is_combination n k d \<longrightarrow> d \<le> st" by simp
      then have "\<not> (\<exists>d. is_combination n k d \<and> st < d)" by (auto simp: leD)
      with False show ?thesis by simp
    qed
    with succ scan len assms(3)
    show "case next_combination \<lparr>m_symbols = symbols, m_state = st, m_k = k\<rparr> of
               (found, c') \<Rightarrow>
                 m_symbols c' = symbols \<and> m_k c' = k \<and>
                 fl_next \<lparr>fl_state = st, fl_k = k, fl_n = n\<rparr>
                   = (found, \<lparr>fl_state = m_state c', fl_k = k, fl_n = n\<rparr>) \<and>
                 found = (\<exists>d. is_combination n k d \<and> st < d) \<and>
                 (if found
                  then is_combination n k (m_state c') \<and> st < m_state c' \<and>
                       (\<forall>d. is_combination n k d \<and> st < d \<longrightarrow> m_state c' \<le> d)
                  else m_state c' = st \<and> (\<forall>d. is_combination n k d \<longrightarrow> d \<le> st))"
      by (simp add: next_combination_def fl_next_def)
  qed
  show "\<exists>L. collect_combinations Inr \<lparr>m_symbols = symbols, m_state = [0..<k], m_k = k\<rparr> []
                 = Inr (map (map ((!) symbols)) L) \<and>
              length L = n choose k \<and> sorted_wrt (<) L \<and> set L = {d. is_combination n k d}"
  proof (intro exI [of _ "all_combinations n k"] conjI)
    show "collect_combinations Inr \<lparr>m_symbols = symbols, m_state = [0..<k], m_k = k\<rparr> []
          = Inr (map (map ((!) symbols)) (all_combinations n k))"
      using collect_combinations_eq [of "\<lparr>m_symbols = symbols, m_state = [0..<k], m_k = k\<rparr>" Inr
          "map ((!) symbols)" "[]"] assms
      by (simp add: first_is_combination combinations_from_first)
  qed (simp_all add: all_combinations_props)
  show "\<forall>k' > n. (\<exists>msg. make_combination symbols k' = Inl (Logic_error msg)) \<and>
                    fl_make_combination n k' = Inl (Domain_error ''k > n'')"
    using assms by (simp add: make_combination_def fl_make_combination_def)
qed

theorem combination_generator_lexicographic_witness:
  "(1::nat) \<le> 2 \<and> (2::nat) \<le> 3 \<and> length ''abc'' = 3 \<and>
   make_combination ''abc'' 2 = Inr \<lparr>m_symbols = ''abc'', m_state = [0, 1], m_k = 2\<rparr> \<and>
   next_combination \<lparr>m_symbols = ''abc'', m_state = [0, 1], m_k = 2\<rparr>
     = (True, \<lparr>m_symbols = ''abc'', m_state = [0, 2], m_k = 2\<rparr>) \<and>
   next_combination \<lparr>m_symbols = ''abc'', m_state = [0, 2], m_k = 2\<rparr>
     = (True, \<lparr>m_symbols = ''abc'', m_state = [1, 2], m_k = 2\<rparr>) \<and>
   next_combination \<lparr>m_symbols = ''abc'', m_state = [1, 2], m_k = 2\<rparr>
     = (False, \<lparr>m_symbols = ''abc'', m_state = [1, 2], m_k = 2\<rparr>) \<and>
   collect_combinations Inr \<lparr>m_symbols = ''abc'', m_state = [0, 1], m_k = 2\<rparr> []
     = Inr [''ab'', ''ac'', ''bc''] \<and>
   is_combination 3 2 [0, 1] \<and>
   (\<exists>msg. make_combination ''abc'' 4 = Inl (Logic_error msg))"
proof -
  have h: "(1::nat) \<le> 2" "(2::nat) \<le> 3" "length ''abc'' = 3" by simp_all
  have upt: "[0..<2] = [0, 1]" by (simp add: upt_conv_Cons)
  note gen = combination_generator_lexicographic [OF h]
  have a: "make_combination ''abc'' 2 = Inr \<lparr>m_symbols = ''abc'', m_state = [0, 1], m_k = 2\<rparr>"
    using gen upt by simp
  have b: "is_combination 3 2 [0, 1]"
    using gen upt by simp
  have c: "\<exists>msg. make_combination ''abc'' 4 = Inl (Logic_error msg)"
    using gen by simp
  have d1: "next_combination \<lparr>m_symbols = ''abc'', m_state = [0, 1], m_k = 2\<rparr>
     = (True, \<lparr>m_symbols = ''abc'', m_state = [0, 2], m_k = 2\<rparr>)"
    by code_simp
  have d2: "next_combination \<lparr>m_symbols = ''abc'', m_state = [0, 2], m_k = 2\<rparr>
     = (True, \<lparr>m_symbols = ''abc'', m_state = [1, 2], m_k = 2\<rparr>)"
    by code_simp
  have d3: "next_combination \<lparr>m_symbols = ''abc'', m_state = [1, 2], m_k = 2\<rparr>
     = (False, \<lparr>m_symbols = ''abc'', m_state = [1, 2], m_k = 2\<rparr>)"
    by code_simp
  have d4: "collect_combinations Inr \<lparr>m_symbols = ''abc'', m_state = [0, 1], m_k = 2\<rparr> []
     = Inr [''ab'', ''ac'', ''bc'']"
    by code_simp
  from h a b c d1 d2 d3 d4 show ?thesis by blast
qed


subsection \<open>Decimal numerals\<close>

lemma digit_chars_all:
  "\<forall>d \<in> set [0..<10]. is_digit (''0123456789'' ! d) \<and> digit_value (''0123456789'' ! d) = d"
  by code_simp

lemma digit_chars:
  assumes "d < 10"
  shows "is_digit (''0123456789'' ! d)" and "digit_value (''0123456789'' ! d) = d"
proof -
  from assms have "d \<in> set [0..<10]" by simp
  with digit_chars_all show "is_digit (''0123456789'' ! d)" and "digit_value (''0123456789'' ! d) = d"
    by blast+
qed

lemma to_string_digits: "\<forall>c \<in> set (to_string n). is_digit c"
proof (induction n rule: to_string.induct)
  case (1 n)
  show ?case
  proof (cases "n < 10")
    case True
    then show ?thesis by (subst to_string.simps) (simp add: digit_chars)
  next
    case False
    with 1 show ?thesis by (subst to_string.simps) (simp add: digit_chars)
  qed
qed

lemma to_string_nonempty [simp]: "to_string n \<noteq> []"
  by (subst to_string.simps) simp

lemma digits_value_snoc: "digits_value (ds @ [c]) = 10 * digits_value ds + digit_value c"
  by (simp add: digits_value_def)

lemma digits_value_to_string: "digits_value (to_string n) = n"
proof (induction n rule: to_string.induct)
  case (1 n)
  show ?case
  proof (cases "n < 10")
    case True
    then show ?thesis
      by (subst to_string.simps) (simp add: digits_value_def digit_chars)
  next
    case False
    with 1 have "digits_value (to_string (n div 10)) = n div 10" by simp
    with False show ?thesis
      by (subst to_string.simps) (simp add: digits_value_snoc digit_chars)
  qed
qed

lemma to_string_inj: "to_string a = to_string b \<Longrightarrow> a = b"
  by (metis digits_value_to_string)

lemma to_string_split:
  assumes "to_string a @ x = to_string b @ y"
    and "x = [] \<or> \<not> is_digit (hd x)" and "y = [] \<or> \<not> is_digit (hd y)"
  shows "a = b \<and> x = y"
proof -
  have tw: "takeWhile is_digit (to_string n @ z) = to_string n" if "z = [] \<or> \<not> is_digit (hd z)" for n z
  proof (cases z)
    case Nil
    then show ?thesis using to_string_digits [of n] by (simp add: takeWhile_eq_all_conv)
  next
    case (Cons c cs)
    with that have "\<not> is_digit c" by simp
    with Cons show ?thesis using to_string_digits [of n] by (simp add: takeWhile_append2)
  qed
  from assms(1) have "takeWhile is_digit (to_string a @ x) = takeWhile is_digit (to_string b @ y)"
    by simp
  with assms(2,3) have "to_string a = to_string b" by (simp add: tw)
  with assms(1) show ?thesis by (simp add: to_string_inj)
qed

subsection \<open>Names are injective\<close>

lemma foldl_append_names:
  "foldl (\<lambda>result i. result @ sep @ to_string i) init rest = init @ tail_name sep rest"
  by (induction rest arbitrary: init) (simp_all add: tail_name_def)

lemma or_feature_name_eq:
  "or_feature_name ids = (if ids = [] then Inl Out_of_range else Inr (term_name (F_or ids)))"
  using foldl_append_names [of "'' + f''"]
  by (simp add: or_feature_name_def composite_name_def split: list.splits)

lemma and_feature_name_eq:
  "and_feature_name ids = (if ids = [] then Inl Out_of_range else Inr (term_name (F_and ids)))"
  using foldl_append_names [of "'' * f''"]
  by (simp add: and_feature_name_def composite_name_def split: list.splits)

lemma or_not_feature_name_eq:
  "or_not_feature_name ids = (if ids = [] then Inl Out_of_range else Inr (term_name (F_or_not ids)))"
  using foldl_append_names [of "'' + !f''"]
  by (simp add: or_not_feature_name_def composite_name_def split: list.splits)

lemma and_not_feature_name_eq:
  "and_not_feature_name ids = (if ids = [] then Inl Out_of_range else Inr (term_name (F_and_not ids)))"
  using foldl_append_names [of "'' * !f''"]
  by (simp add: and_not_feature_name_def composite_name_def split: list.splits)

lemma independent_feature_name_eq: "independent_feature_name i = term_name (F_indep i)"
  by (simp add: independent_feature_name_def)

lemma not_feature_name_eq: "not_feature_name i = term_name (F_not i)"
  by (simp add: not_feature_name_def)

lemma tail_name_simps [simp]:
  "tail_name sep [] = []"
  "tail_name sep (i # r) = sep @ to_string i @ tail_name sep r"
  by (simp_all add: tail_name_def)

lemma tail_name_head:
  assumes "sep \<noteq> []" "hd sep = CHR '' ''"
  shows "tail_name sep r = [] \<or> \<not> is_digit (hd (tail_name sep r))"
  using assms by (cases r) (simp_all add: is_digit_def)

lemma tail_name_inj:
  assumes "sep \<noteq> []" "hd sep = CHR '' ''"
  shows "tail_name sep r = tail_name sep r' \<Longrightarrow> r = r'"
proof (induction r arbitrary: r')
  case Nil
  with assms show ?case by (cases r') simp_all
next
  case (Cons i r)
  show ?case
  proof (cases r')
    case Nil
    with Cons.prems assms show ?thesis by simp
  next
    case (Cons i' r1)
    with Cons.prems have "to_string i @ tail_name sep r = to_string i' @ tail_name sep r1" by simp
    from to_string_split [OF this tail_name_head [OF assms] tail_name_head [OF assms]]
    have "i = i'" "tail_name sep r = tail_name sep r1" by simp_all
    with Cons.IH Cons show ?thesis by simp
  qed
qed

lemma tail_name_sep:
  assumes "length sep = length sep'" "sep \<noteq> []" "r \<noteq> []" "tail_name sep r = tail_name sep' r'"
  shows "sep = sep'"
proof -
  from assms obtain i r1 where r: "r = i # r1" by (cases r) auto
  with assms obtain i' r1' where r': "r' = i' # r1'" by (cases r') auto
  from assms(4) r r' have "take (length sep) (sep @ to_string i @ tail_name sep r1)
      = take (length sep) (sep' @ to_string i' @ tail_name sep' r1')" by simp
  with assms(1) show ?thesis by simp
qed

lemma shape_inj:
  assumes eq: "pre @ to_string i @ tail_name sep r = pre @ to_string i' @ tail_name sep' r'"
    and sep: "sep \<noteq> []" "hd sep = CHR '' ''" and sep': "sep' \<noteq> []" "hd sep' = CHR '' ''"
    and len: "length sep = length sep'"
  shows "i = i' \<and> (r = [] \<longleftrightarrow> r' = []) \<and> (r \<noteq> [] \<longrightarrow> sep = sep' \<and> r = r')"
proof -
  from eq have "to_string i @ tail_name sep r = to_string i' @ tail_name sep' r'" by simp
  from to_string_split [OF this tail_name_head [OF sep] tail_name_head [OF sep']]
  have i: "i = i'" and t: "tail_name sep r = tail_name sep' r'" by simp_all
  have nil: "r = [] \<longleftrightarrow> r' = []"
  proof
    assume "r = []" with t sep' show "r' = []" by (cases r') simp_all
  next
    assume "r' = []" with t sep show "r = []" by (cases r) simp_all
  qed
  have "sep = sep' \<and> r = r'" if "r \<noteq> []"
  proof -
    from tail_name_sep [OF len sep(1) that t] have "sep = sep'" .
    with t tail_name_inj [OF sep] show ?thesis by simp
  qed
  with i nil show ?thesis by blast
qed

lemma composite_name_shape:
  assumes "2 \<le> length ids"
  obtains i r where "ids = i # r" "r \<noteq> []" "composite_name pre sep ids = pre @ to_string i @ tail_name sep r"
proof -
  from assms obtain i j r1 where "ids = i # j # r1"
    by (cases ids; cases "tl ids") auto
  then show ?thesis using that [of i "j # r1"] by (simp add: composite_name_def)
qed

lemma term_name_shape:
  assumes "well_named d"
  obtains neg sep i r where
    "term_name d = (if neg then ''!f'' else ''f'') @ to_string i @ tail_name sep r"
    "sep \<noteq> []" "hd sep = CHR '' ''" "length sep = (if neg then 5 else 4)"
    "d = (if neg then (if r = [] then F_not i else if sep = '' + !f'' then F_or_not (i # r) else F_and_not (i # r))
          else (if r = [] then F_indep i else if sep = '' + f'' then F_or (i # r) else F_and (i # r)))"
proof (cases d)
  case (F_indep i)
  show ?thesis
    by (rule that [of False i "'' + f''" "[]"]) (simp_all add: F_indep)
next
  case (F_or ids)
  with assms have "2 \<le> length ids" by (simp add: well_named_def)
  then obtain i r where "ids = i # r" "r \<noteq> []"
    "composite_name ''f'' '' + f'' ids = ''f'' @ to_string i @ tail_name '' + f'' r"
    by (rule composite_name_shape)
  then show ?thesis
    by (intro that [of False i "'' + f''" r]) (simp_all add: F_or)
next
  case (F_and ids)
  with assms have "2 \<le> length ids" by (simp add: well_named_def)
  then obtain i r where "ids = i # r" "r \<noteq> []"
    "composite_name ''f'' '' * f'' ids = ''f'' @ to_string i @ tail_name '' * f'' r"
    by (rule composite_name_shape)
  then show ?thesis
    by (intro that [of False i "'' * f''" r]) (simp_all add: F_and)
next
  case (F_not i)
  show ?thesis
    by (rule that [of True i "'' + !f''" "[]"]) (simp_all add: F_not)
next
  case (F_or_not ids)
  with assms have "2 \<le> length ids" by (simp add: well_named_def)
  then obtain i r where "ids = i # r" "r \<noteq> []"
    "composite_name ''!f'' '' + !f'' ids = ''!f'' @ to_string i @ tail_name '' + !f'' r"
    by (rule composite_name_shape)
  then show ?thesis
    by (intro that [of True i "'' + !f''" r]) (simp_all add: F_or_not)
next
  case (F_and_not ids)
  with assms have "2 \<le> length ids" by (simp add: well_named_def)
  then obtain i r where "ids = i # r" "r \<noteq> []"
    "composite_name ''!f'' '' * !f'' ids = ''!f'' @ to_string i @ tail_name '' * !f'' r"
    by (rule composite_name_shape)
  then show ?thesis
    by (intro that [of True i "'' * !f''" r]) (simp_all add: F_and_not)
qed

lemma term_name_inj:
  assumes "well_named d" "well_named d'" "term_name d = term_name d'"
  shows "d = d'"
proof -
  from assms(1) obtain neg sep i r where d:
    "term_name d = (if neg then ''!f'' else ''f'') @ to_string i @ tail_name sep r"
    "sep \<noteq> []" "hd sep = CHR '' ''" "length sep = (if neg then 5 else 4)"
    "d = (if neg then (if r = [] then F_not i else if sep = '' + !f'' then F_or_not (i # r) else F_and_not (i # r))
          else (if r = [] then F_indep i else if sep = '' + f'' then F_or (i # r) else F_and (i # r)))"
    by (rule term_name_shape)
  from assms(2) obtain neg' sep' i' r' where d':
    "term_name d' = (if neg' then ''!f'' else ''f'') @ to_string i' @ tail_name sep' r'"
    "sep' \<noteq> []" "hd sep' = CHR '' ''" "length sep' = (if neg' then 5 else 4)"
    "d' = (if neg' then (if r' = [] then F_not i' else if sep' = '' + !f'' then F_or_not (i' # r') else F_and_not (i' # r'))
          else (if r' = [] then F_indep i' else if sep' = '' + f'' then F_or (i' # r') else F_and (i' # r')))"
    by (rule term_name_shape)
  have "hd (term_name d) = (if neg then CHR ''!'' else CHR ''f'')"
    by (simp add: d(1))
  moreover have "hd (term_name d') = (if neg' then CHR ''!'' else CHR ''f'')"
    by (simp add: d'(1))
  ultimately have neg: "neg = neg'"
    using assms(3) by (simp split: if_splits)
  have "(if neg then ''!f'' else ''f'') @ to_string i @ tail_name sep r = term_name d"
    by (simp only: d(1))
  also have "\<dots> = term_name d'" by (rule assms(3))
  also have "\<dots> = (if neg then ''!f'' else ''f'') @ to_string i' @ tail_name sep' r'"
    unfolding neg by (simp only: d'(1))
  finally have eq: "(if neg then ''!f'' else ''f'') @ to_string i @ tail_name sep r
        = (if neg then ''!f'' else ''f'') @ to_string i' @ tail_name sep' r'" .
  have len: "length sep = length sep'" using d(4) d'(4) neg by simp
  from shape_inj [OF eq d(2,3) d'(2,3) len]
  have i: "i = i'" and nil: "r = [] \<longleftrightarrow> r' = []" and cons: "r \<noteq> [] \<longrightarrow> sep = sep' \<and> r = r'"
    by blast+
  show ?thesis
  proof (cases "r = []")
    case True
    with nil have "r' = []" by simp
    with True i neg show ?thesis by (simp add: d(5) d'(5))
  next
    case False
    with cons have "sep = sep'" "r = r'" by simp_all
    with i neg show ?thesis by (simp only: d(5) d'(5))
  qed
qed

subsection \<open>The dependent features of the taxonomy\<close>

declare upt_Suc [simp del]

lemma names_loop_eq':
  assumes "todo = 0 \<or> k + todo \<le> length raw + 1"
    and "\<forall>k' d. k \<le> k' \<and> k' < k + todo \<and> is_combination (length raw) k' d
           \<longrightarrow> g (map ((!) raw) d) = Inr (h d)"
  shows "names_loop g todo raw k result
         = Inr (result @ concat (map (\<lambda>k'. map h (all_combinations (length raw) k')) [k..<k + todo]))"
proof (cases "todo = 0")
  case True
  then show ?thesis by simp
next
  case False
  with assms show ?thesis by (intro names_loop_eq) simp_all
qed

lemma nth_raw_combination:
  assumes "is_combination n k d"
  shows "map ((!) [1..<Suc n]) d = map Suc d"
proof (rule map_cong [OF refl])
  fix e assume "e \<in> set d"
  with assms have "e < n" by (simp add: is_combination_def)
  then show "[1..<Suc n] ! e = Suc e" by (simp add: nth_upt)
qed

lemma names_loop_dependent:
  assumes "\<forall>ids. ids \<noteq> [] \<longrightarrow> g ids = Inr (h ids)"
  shows "names_loop g (n - 1) [1..<Suc n] 2 [] = Inr (map h (dependent_ids n))"
proof -
  have "names_loop g (n - 1) [1..<Suc n] 2 []
        = Inr ([] @ concat (map (\<lambda>k'. map (\<lambda>d. h (map Suc d)) (all_combinations (length [1..<Suc n]) k'))
                            [2..<2 + (n - 1)]))"
  proof (rule names_loop_eq')
    show "n - 1 = 0 \<or> 2 + (n - 1) \<le> length [1..<Suc n] + 1" by auto
  next
    show "\<forall>k' d. 2 \<le> k' \<and> k' < 2 + (n - 1) \<and> is_combination (length [1..<Suc n]) k' d
            \<longrightarrow> g (map ((!) [1..<Suc n]) d) = Inr (h (map Suc d))"
    proof (intro allI impI)
      fix k' d assume a: "2 \<le> k' \<and> k' < 2 + (n - 1) \<and> is_combination (length [1..<Suc n]) k' d"
      then have c: "is_combination n k' d" by (simp)
      then have eq: "map ((!) [1..<Suc n]) d = map Suc d" by (rule nth_raw_combination)
      have "map Suc d \<noteq> []" using a c by (auto simp: is_combination_def)
      with assms have "g (map Suc d) = Inr (h (map Suc d))" by blast
      then show "g (map ((!) [1..<Suc n]) d) = Inr (h (map Suc d))"
        by (simp only: eq)
    qed
  qed
  moreover have "[2..<2 + (n - 1)] = [2..<Suc n]"
    by (cases n) simp_all
  ultimately show ?thesis
    by (simp add: dependent_ids_def map_concat comp_def)
qed

lemma dependent_ids_props:
  assumes "A \<in> set (dependent_ids n)"
  shows "2 \<le> length A" "sorted_wrt (<) A" "set A \<subseteq> {1..n}" "A \<noteq> []"
proof -
  from assms obtain k d where k: "2 \<le> k" and d: "is_combination n k d" and A: "A = map Suc d"
    by (auto simp: dependent_ids_def all_combinations_props)
  from d k A show "2 \<le> length A" by (simp add: is_combination_def)
  then show "A \<noteq> []" by auto
  from d A show "sorted_wrt (<) A" by (simp add: is_combination_def sorted_wrt_map)
  from d A show "set A \<subseteq> {1..n}" by (auto simp: is_combination_def)
qed

subsection \<open>The features of one system\<close>

lemma or_features_inner_eq:
  assumes "\<forall>j \<in> set js. name j = Inr (nm j)"
  shows "\<exists>r. or_features_inner name i js result = Inr r \<and>
             set r = set result \<union> nm ` {j \<in> set js. i \<in> set j}"
  using assms
proof (induction js arbitrary: result)
  case Nil
  then show ?case by simp
next
  case (Cons j js)
  let ?result = "if contains j i \<and> \<not> contains result (nm j) then result @ [nm j] else result"
  from Cons.prems have "\<forall>j \<in> set js. name j = Inr (nm j)" by simp
  from Cons.IH [OF this, of ?result] obtain r where
    r: "or_features_inner name i js ?result = Inr r"
       "set r = set ?result \<union> nm ` {j \<in> set js. i \<in> set j}" by blast
  have "or_features_inner name i (j # js) result = Inr r"
    using Cons.prems r(1) by (simp add: bind_error_def)
  moreover have "set r = set result \<union> nm ` {j' \<in> set (j # js). i \<in> set j'}"
    using r(2) by (auto simp: contains_def)
  ultimately show ?case by blast
qed

lemma or_features_outer_eq:
  assumes "\<forall>j \<in> set js. name j = Inr (nm j)"
  shows "\<exists>r. or_features_outer name f js result = Inr r \<and>
             set r = set result \<union> nm ` {j \<in> set js. set j \<inter> set f \<noteq> {}}"
proof (induction f arbitrary: result)
  case Nil
  then show ?case by simp
next
  case (Cons i f)
  from or_features_inner_eq [OF assms, of i result] obtain r1 where
    r1: "or_features_inner name i js result = Inr r1"
        "set r1 = set result \<union> nm ` {j \<in> set js. i \<in> set j}" by blast
  from Cons.IH [of r1] obtain r where
    r: "or_features_outer name f js r1 = Inr r"
       "set r = set r1 \<union> nm ` {j \<in> set js. set j \<inter> set f \<noteq> {}}" by blast
  have "or_features_outer name (i # f) js result = Inr r"
    using r1(1) r(1) by (simp add: bind_error_def)
  moreover have "set r = set result \<union> nm ` {j \<in> set js. set j \<inter> set (i # f) \<noteq> {}}"
    using r1(2) r(2) by auto
  ultimately show ?case by blast
qed

lemma and_features_loop_eq:
  assumes "\<forall>i \<in> set js. name i = Inr (nm i)"
  shows "\<exists>r. and_features_loop name f js result = Inr r \<and>
             set r = set result \<union> nm ` {j \<in> set js. set j \<subseteq> set f}"
  using assms
proof (induction js arbitrary: result)
  case Nil
  then show ?case by simp
next
  case (Cons j js)
  from Cons.prems have js: "\<forall>j \<in> set js. name j = Inr (nm j)" and j: "name j = Inr (nm j)" by simp_all
  show ?case
  proof (cases "set j \<subseteq> set f")
    case True
    from Cons.IH [OF js, of "result @ [nm j]"] obtain r where
      r: "and_features_loop name f js (result @ [nm j]) = Inr r"
         "set r = set (result @ [nm j]) \<union> nm ` {j \<in> set js. set j \<subseteq> set f}" by blast
    have "and_features_loop name f (j # js) result = Inr r"
      using True j r(1) by (auto simp: bind_error_def contains_def)
    moreover have "set r = set result \<union> nm ` {j' \<in> set (j # js). set j' \<subseteq> set f}"
      using True r(2) by auto
    ultimately show ?thesis by blast
  next
    case False
    from Cons.IH [OF js, of result] obtain r where
      r: "and_features_loop name f js result = Inr r"
         "set r = set result \<union> nm ` {j \<in> set js. set j \<subseteq> set f}" by blast
    have "and_features_loop name f (j # js) result = Inr r"
      using False r(1) by (auto simp: contains_def)
    moreover have "set r = set result \<union> nm ` {j' \<in> set (j # js). set j' \<subseteq> set f}"
      using False r(2) by auto
    ultimately show ?thesis by blast
  qed
qed

lemma set_negate: "set (negate v n) = {1..n} - set v"
  by (auto simp: negate_def contains_def)

lemma or_name_dependent:
  "\<forall>j \<in> set (dependent_ids n). or_feature_name j = Inr (term_name (F_or j))"
  "\<forall>j \<in> set (dependent_ids n). and_feature_name j = Inr (term_name (F_and j))"
  "\<forall>j \<in> set (dependent_ids n). or_not_feature_name j = Inr (term_name (F_or_not j))"
  "\<forall>j \<in> set (dependent_ids n). and_not_feature_name j = Inr (term_name (F_and_not j))"
  using dependent_ids_props(4) [of _ n]
  by (simp_all add: or_feature_name_eq and_feature_name_eq or_not_feature_name_eq
      and_not_feature_name_eq)

lemma filter_map_image: "{d \<in> C ` A. Q d} = C ` {j \<in> A. Q (C j)}"
  by auto

lemma generate_or_features_set:
  assumes "m_M t = M" "m_raw_dependent_features t = dependent_ids n"
  shows "\<exists>r. generate_or_features t f = Inr r \<and>
             set r = term_name ` {d \<in> set (if hasO M then map F_or (dependent_ids n) else []). holds n d (set f)}"
proof (cases "hasO M")
  case True
  from or_features_outer_eq [OF or_name_dependent(1) [of n], of f "[]"] obtain r where
    r: "or_features_outer or_feature_name f (dependent_ids n) [] = Inr r"
       "set r = set [] \<union> (\<lambda>j. term_name (F_or j)) ` {j \<in> set (dependent_ids n). set j \<inter> set f \<noteq> {}}"
    by blast
  have "generate_or_features t f = Inr (sort r)"
    using True assms r(1) by (simp add: generate_or_features_def bind_error_def)
  moreover have "set (sort r) = term_name ` {d \<in> set (map F_or (dependent_ids n)). holds n d (set f)}"
    using r(2) by (simp add: filter_map_image image_image set_negate del: term_name.simps)
  ultimately show ?thesis using True by simp
next
  case False
  with assms show ?thesis by (simp add: generate_or_features_def)
qed

lemma generate_and_features_set:
  assumes "m_M t = M" "m_raw_dependent_features t = dependent_ids n"
  shows "\<exists>r. generate_and_features t f = Inr r \<and>
             set r = term_name ` {d \<in> set (if hasA M then map F_and (dependent_ids n) else []). holds n d (set f)}"
proof (cases "hasA M")
  case True
  from and_features_loop_eq [OF or_name_dependent(2) [of n], of f "[]"] obtain r where
    r: "and_features_loop and_feature_name f (dependent_ids n) [] = Inr r"
       "set r = set [] \<union> (\<lambda>j. term_name (F_and j)) ` {j \<in> set (dependent_ids n). set j \<subseteq> set f}"
    by blast
  have "generate_and_features t f = Inr (sort r)"
    using True assms r(1) by (simp add: generate_and_features_def bind_error_def)
  moreover have "set (sort r) = term_name ` {d \<in> set (map F_and (dependent_ids n)). holds n d (set f)}"
    using r(2) by (simp add: filter_map_image image_image set_negate del: term_name.simps)
  ultimately show ?thesis using True by simp
next
  case False
  with assms show ?thesis by (simp add: generate_and_features_def)
qed

lemma generate_or_not_features_set:
  assumes "m_M t = M" "m_raw_dependent_features t = dependent_ids n" "m_n t = n"
  shows "\<exists>r. generate_or_not_features t f = Inr r \<and>
             set r = term_name ` {d \<in> set (if hasON M then map F_or_not (dependent_ids n) else []). holds n d (set f)}"
proof (cases "hasON M")
  case True
  from or_features_outer_eq [OF or_name_dependent(3) [of n], of "negate f n" "[]"] obtain r where
    r: "or_features_outer or_not_feature_name (negate f n) (dependent_ids n) [] = Inr r"
       "set r = set [] \<union> (\<lambda>j. term_name (F_or_not j)) `
                  {j \<in> set (dependent_ids n). set j \<inter> set (negate f n) \<noteq> {}}"
    by blast
  have "generate_or_not_features t f = Inr (sort r)"
    using True assms r(1) by (simp add: generate_or_not_features_def bind_error_def)
  moreover have "set (sort r) = term_name ` {d \<in> set (map F_or_not (dependent_ids n)). holds n d (set f)}"
    using r(2) by (simp add: filter_map_image image_image set_negate del: term_name.simps)
  ultimately show ?thesis using True by simp
next
  case False
  with assms show ?thesis by (simp add: generate_or_not_features_def)
qed

lemma generate_and_not_features_set:
  assumes "m_M t = M" "m_raw_dependent_features t = dependent_ids n" "m_n t = n"
  shows "\<exists>r. generate_and_not_features t f = Inr r \<and>
             set r = term_name ` {d \<in> set (if hasAN M then map F_and_not (dependent_ids n) else []). holds n d (set f)}"
proof (cases "hasAN M")
  case True
  from and_features_loop_eq [OF or_name_dependent(4) [of n], of "negate f n" "[]"] obtain r where
    r: "and_features_loop and_not_feature_name (negate f n) (dependent_ids n) [] = Inr r"
       "set r = set [] \<union> (\<lambda>j. term_name (F_and_not j)) `
                  {j \<in> set (dependent_ids n). set j \<subseteq> set (negate f n)}"
    by blast
  have "generate_and_not_features t f = Inr (sort r)"
    using True assms r(1) by (simp add: generate_and_not_features_def bind_error_def)
  moreover have "set (sort r) = term_name ` {d \<in> set (map F_and_not (dependent_ids n)). holds n d (set f)}"
    using r(2) by (simp add: filter_map_image image_image set_negate del: term_name.simps)
  ultimately show ?thesis using True by simp
next
  case False
  with assms show ?thesis by (simp add: generate_and_not_features_def)
qed

lemma generate_independent_features_set:
  assumes "set f \<subseteq> {1..n}"
  shows "set (generate_independent_features f)
         = term_name ` {d \<in> set (map F_indep [1..<Suc n]). holds n d (set f)}"
proof -
  have "{d \<in> set (map F_indep [1..<Suc n]). holds n d (set f)} = F_indep ` set f"
    using assms by auto
  then show ?thesis
    by (simp add: generate_independent_features_def independent_feature_name_eq image_image)
qed

lemma generate_not_features_set:
  assumes "m_M t = M" "m_n t = n"
  shows "set (generate_not_features t f)
         = term_name ` {d \<in> set (if hasN M then map F_not [1..<Suc n] else []). holds n d (set f)}"
proof (cases "hasN M")
  case True
  have "{d \<in> set (map F_not [1..<Suc n]). holds n d (set f)} = F_not ` ({1..n} - set f)"
    by auto
  with True assms show ?thesis
    by (simp add: generate_not_features_def not_feature_name_eq set_negate image_image)
next
  case False
  with assms show ?thesis by (simp add: generate_not_features_def)
qed

lemma system_terms_split:
  "system_terms n M P =
     {d \<in> set (map F_indep [1..<Suc n]). holds n d P}
     \<union> {d \<in> set (if hasO M then map F_or (dependent_ids n) else []). holds n d P}
     \<union> {d \<in> set (if hasA M then map F_and (dependent_ids n) else []). holds n d P}
     \<union> {d \<in> set (if hasN M then map F_not [1..<Suc n] else []). holds n d P}
     \<union> {d \<in> set (if hasON M then map F_or_not (dependent_ids n) else []). holds n d P}
     \<union> {d \<in> set (if hasAN M then map F_and_not (dependent_ids n) else []). holds n d P}"
  unfolding system_terms_def feature_terms_def set_append by blast

lemma generate_system_set:
  assumes t: "m_n t = n" "m_M t = M" "m_raw_dependent_features t = dependent_ids n"
    and f: "set f \<subseteq> {1..n}"
  shows "\<exists>sys. generate_system t f = Inr sys \<and> set sys = term_name ` system_terms n M (set f)"
proof -
  from generate_or_features_set [OF t(2,3), of f] obtain r1 where r1:
    "generate_or_features t f = Inr r1"
    "set r1 = term_name ` {d \<in> set (if hasO M then map F_or (dependent_ids n) else []). holds n d (set f)}"
    by blast
  from generate_and_features_set [OF t(2,3), of f] obtain r2 where r2:
    "generate_and_features t f = Inr r2"
    "set r2 = term_name ` {d \<in> set (if hasA M then map F_and (dependent_ids n) else []). holds n d (set f)}"
    by blast
  from generate_or_not_features_set [OF t(2,3,1), of f] obtain r3 where r3:
    "generate_or_not_features t f = Inr r3"
    "set r3 = term_name ` {d \<in> set (if hasON M then map F_or_not (dependent_ids n) else []). holds n d (set f)}"
    by blast
  from generate_and_not_features_set [OF t(2,3,1), of f] obtain r4 where r4:
    "generate_and_not_features t f = Inr r4"
    "set r4 = term_name ` {d \<in> set (if hasAN M then map F_and_not (dependent_ids n) else []). holds n d (set f)}"
    by blast
  let ?sys = "sort (generate_independent_features f @ r1 @ r2 @ generate_not_features t f @ r3 @ r4)"
  have "generate_system t f = Inr ?sys"
    by (simp add: generate_system_def bind_error_def r1(1) r2(1) r3(1) r4(1))
  moreover have "set ?sys = term_name ` system_terms n M (set f)"
    unfolding system_terms_split image_Un set_sort set_append
      generate_independent_features_set [OF f] generate_not_features_set [OF t(2,1)]
      r1(2) r2(2) r3(2) r4(2)
    by (simp only: Un_assoc)
  ultimately show ?thesis by blast
qed

subsection \<open>All systems\<close>

lemma bit_below:
  fixes p :: nat
  assumes "p < 2 ^ n" "bit p b"
  shows "b < n"
proof -
  from assms(1) have eq: "take_bit n p = p" by (simp add: take_bit_nat_eq_self_iff)
  from assms(2) have "bit (take_bit n p) b" by (simp only: eq)
  then show ?thesis by (simp only: bit_take_bit_iff)
qed

lemma present_subset:
  fixes p :: nat
  assumes "p < 2 ^ n"
  shows "present p \<subseteq> {1..n}"
  using bit_below [OF assms] by (fastforce simp: present_def)

lemma unsigned2vector_set:
  assumes "p < 2 ^ 64"
  shows "set (unsigned2vector (of_nat p)) = present p"
proof -
  have iff: "(of_nat p :: 64 word) AND push_bit b 1 \<noteq> 0 \<longleftrightarrow> b < 64 \<and> bit p b" for b
  proof -
    have "(of_nat p :: 64 word) AND push_bit b 1 \<noteq> 0 \<longleftrightarrow> bit (of_nat p :: 64 word) b"
      by (simp only: bit_iff_and_push_bit_not_eq_0)
    also have "\<dots> \<longleftrightarrow> b < 64 \<and> bit p b"
      by (simp add: bit_of_nat_iff)
    finally show ?thesis .
  qed
  have "set (unsigned2vector (of_nat p))
        = Suc ` {b \<in> set [0..<64]. (of_nat p :: 64 word) AND push_bit b 1 \<noteq> 0}"
    by (simp only: unsigned2vector_def set_map set_filter)
  also have "\<dots> = Suc ` {b. b < 64 \<and> bit p b}"
    by (simp only: iff set_upt atLeastLessThan_iff) simp
  also have "\<dots> = present p"
    using bit_below [OF assms] by (auto simp: present_def)
  finally show ?thesis .
qed

lemma all_systems_loop_ok:
  assumes t: "m_n t = n" "m_M t = M" "m_raw_dependent_features t = dependent_ids n"
    and n: "n \<le> 64" and bound: "s + todo \<le> 2 ^ n"
  shows "\<exists>sys. all_systems_loop t s todo result = Inr (result @ sys) \<and> length sys = todo \<and>
           (\<forall>q<todo. set (sys ! q) = term_name ` system_terms n M (present (s + q)))"
  using bound
proof (induction todo arbitrary: s result)
  case 0
  then show ?case by simp
next
  case (Suc todo)
  then have s: "s < 2 ^ n" by simp
  have "(2::nat) ^ n \<le> 2 ^ 64" using n by (intro power_increasing) simp_all
  with s have s64: "s < 2 ^ 64" by simp
  have f: "set (unsigned2vector (of_nat s)) \<subseteq> {1..n}"
    using present_subset [OF s] unsigned2vector_set [OF s64] by simp
  from generate_system_set [OF t f] unsigned2vector_set [OF s64] obtain sys1 where sys1:
    "generate_system t (unsigned2vector (of_nat s)) = Inr sys1"
    "set sys1 = term_name ` system_terms n M (present s)"
    by auto
  from Suc.prems have "Suc s + todo \<le> 2 ^ n" by simp
  from Suc.IH [OF this, of "result @ [sys1]"] obtain sys where sys:
    "all_systems_loop t (Suc s) todo (result @ [sys1]) = Inr ((result @ [sys1]) @ sys)"
    "length sys = todo"
    "\<forall>q<todo. set (sys ! q) = term_name ` system_terms n M (present (Suc s + q))"
    by blast
  have "all_systems_loop t s (Suc todo) result = Inr (result @ (sys1 # sys))"
    using sys1(1) sys(1) by (simp add: bind_error_def)
  moreover have "length (sys1 # sys) = Suc todo" using sys(2) by simp
  moreover have "\<forall>q<Suc todo. set ((sys1 # sys) ! q) = term_name ` system_terms n M (present (s + q))"
  proof (intro allI impI)
    fix q assume "q < Suc todo"
    then show "set ((sys1 # sys) ! q) = term_name ` system_terms n M (present (s + q))"
      using sys1(2) sys(3) by (cases q) simp_all
  qed
  ultimately show ?case by blast
qed

lemma unat_of_nat_64:
  assumes "x < 2 ^ 64"
  shows "unat (of_nat x :: 64 word) = x"
  using assms by (simp add: unat_of_nat)

lemma unat_power2:
  assumes "n < 64"
  shows "unat ((2::64 word) ^ n) = 2 ^ n"
proof -
  have "(2::nat) ^ n < 2 ^ 64" using assms by (intro power_strict_increasing) simp_all
  then have "unat (of_nat (2 ^ n) :: 64 word) = 2 ^ n" by (rule unat_of_nat_64)
  then show ?thesis by simp
qed

lemma unat_of_nat_small:
  assumes "n < 64"
  shows "unat (of_nat n :: 64 word) = n"
  using assms by (intro unat_of_nat_64) simp

lemma power2_u_of_nat:
  assumes "n < 64"
  shows "power2_u (of_nat n) = 2 ^ n"
  using assms by (simp add: power2_u_eq unat_of_nat_small)

lemma raw_dependent_loop_eq: "raw_dependent_loop (n - 1) [1..<Suc n] 2 [] = Inr (dependent_ids n)"
  using names_loop_dependent [of Inr "\<lambda>ids. ids" n]
  by (simp add: raw_dependent_loop_names_loop)

lemma make_feature_location_ok:
  assumes n: "n < 64" and counts: "\<exists>c. sum_of_combinations (of_nat n) 2 = Inr c"
  shows "\<exists>t. make_feature_location n M = Inr t \<and> is_taxonomy n M t"
proof -
  from counts obtain c where c: "sum_of_combinations (of_nat n) 2 = Inr c" by blast
  define c_O where "c_O = (if hasO M then c else 0)"
  define c_A where "c_A = (if hasA M then c else 0)"
  define c_ON where "c_ON = (if hasON M then c else 0)"
  define c_AN where "c_AN = (if hasAN M then c else 0)"
  define c_N :: maxnat_t where "c_N = (if hasN M then of_nat n else 0)"
  define t0 :: feature_location_t where "t0 =
     \<lparr>m_n = n, m_F = of_nat n, m_M = M, m_S = power2_u (of_nat n),
      m_O = c_O, m_A = c_A, m_N = c_N, m_ON = c_ON, m_AN = c_AN,
      m_I = c_O + c_A + c_N + c_AN + c_ON,
      m_T = of_nat n + c_O + c_A + c_N + c_AN + c_ON,
      m_D = power2_u (power2_u (of_nat n)),
      m_raw_independent_features = [1..<Suc n],
      m_raw_dependent_features = dependent_ids n,
      m_all_systems = []\<rparr>"
  have S: "m_S t0 = 2 ^ n" by (simp add: t0_def power2_u_of_nat n)
  have t0: "m_n t0 = n" "m_M t0 = M" "m_raw_dependent_features t0 = dependent_ids n"
    by (simp_all add: t0_def)
  have "n \<le> 64" using n by simp
  from all_systems_loop_ok [OF t0 this, of 0 "2 ^ n" "[]"] obtain sys where sys:
    "all_systems_loop t0 0 (2 ^ n) [] = Inr sys" "length sys = 2 ^ n"
    "\<forall>q<2 ^ n. set (sys ! q) = term_name ` system_terms n M (present q)"
    by auto
  have gen: "generate_all_systems t0 = Inr sys"
    using sys(1) S by (simp add: generate_all_systems_def unat_power2 n)
  have counts_eq:
    "count_if (hasO M) (sum_of_combinations (of_nat n) 2) = Inr c_O"
    "count_if (hasA M) (sum_of_combinations (of_nat n) 2) = Inr c_A"
    "count_if (hasON M) (sum_of_combinations (of_nat n) 2) = Inr c_ON"
    "count_if (hasAN M) (sum_of_combinations (of_nat n) 2) = Inr c_AN"
    by (simp_all add: count_if_def c c_O_def c_A_def c_ON_def c_AN_def)
  have "make_feature_location n M = Inr (t0\<lparr>m_all_systems := sys\<rparr>)"
    unfolding make_feature_location_def counts_eq bind_error_def
    using gen raw_dependent_loop_eq [of n]
    by (simp add: Let_def t0_def c_N_def)
  moreover have "is_taxonomy n M (t0\<lparr>m_all_systems := sys\<rparr>)"
    using sys(2,3) n
    by (simp add: is_taxonomy_def t0_def c_N_def power2_u_of_nat power2_u_eq [of "2 ^ n"] unat_power2)
  ultimately show ?thesis by blast
qed

subsection \<open>Distinct features are told apart by some system\<close>

lemma feature_terms_wf:
  assumes "d \<in> set (feature_terms n M)"
  shows "wf_term n d"
proof -
  have "wf_ids n A" if "A \<in> set (dependent_ids n)" for A
    using dependent_ids_props [OF that] by (simp add: wf_ids_def)
  with assms show ?thesis
    by (auto simp: feature_terms_def wf_term_def split: if_splits)
qed

lemma wf_term_well_named: "wf_term n d \<Longrightarrow> well_named d"
  by (cases d) (simp_all add: wf_term_def well_named_def wf_ids_def)








lemma dual_dual [simp]: "dual (dual d) = d"
  by (cases d) simp_all

lemma wf_term_dual [simp]: "wf_term n (dual d) = wf_term n d"
  by (cases d) (simp_all add: wf_term_def)







subsection \<open>Membership of a feature in a system\<close>

lemma system_membership:
  assumes tax: "is_taxonomy n M t" and d: "d \<in> set (feature_terms n M)" and p: "p < 2 ^ n"
  shows "term_name d \<in> set (m_all_systems t ! p) \<longleftrightarrow> holds n d (present p)"
proof
  assume "term_name d \<in> set (m_all_systems t ! p)"
  with tax p obtain d' where d': "d' \<in> set (feature_terms n M)" "holds n d' (present p)"
    "term_name d = term_name d'"
    by (auto simp: is_taxonomy_def system_terms_def)
  have "d = d'"
    using d d'(1,3) by (intro term_name_inj wf_term_well_named [of n] feature_terms_wf [of _ n M])
  with d'(2) show "holds n d (present p)" by simp
next
  assume "holds n d (present p)"
  with tax p d show "term_name d \<in> set (m_all_systems t ! p)"
    by (auto simp: is_taxonomy_def system_terms_def)
qed




subsection \<open>System names\<close>

lemma digit_not_space:
  assumes "is_digit c"
  shows "\<not> is_space c" "c \<noteq> CHR ''-''" "c \<noteq> CHR ''+''"
  using assms by (auto simp: is_digit_def is_space_def)

lemma stoull_to_string:
  assumes "m < 2 ^ 64"
  shows "stoull (to_string m) = Inr (of_nat m)"
proof -
  obtain c cs where s: "to_string m = c # cs"
    using to_string_nonempty [of m] by (cases "to_string m") auto
  have digits: "\<forall>c \<in> set (to_string m). is_digit c" by (rule to_string_digits)
  with s have c: "is_digit c" by simp
  have 1: "dropWhile is_space (to_string m) = to_string m"
    using s digit_not_space(1) [OF c] by simp
  have 2: "takeWhile is_digit (to_string m) = to_string m"
    using digits by (simp add: takeWhile_eq_all_conv)
  show ?thesis
    unfolding stoull_def 1 Let_def
    using s digit_not_space(2,3) [OF c] 2 [unfolded s] assms digits_value_to_string [of m, unfolded s]
    by simp
qed

lemma to_feature_id_small: "x < 2 ^ 16 \<Longrightarrow> to_feature_id x = x"
  by (simp add: to_feature_id_def)

lemma system_name_inj: "system_name a = system_name b \<Longrightarrow> a = b"
  by (simp add: system_name_def to_string_inj)

lemma system2features_name:
  assumes "q < length (m_all_systems t)" "length (m_all_systems t) < 2 ^ 16"
  shows "system2features t (system_name (to_feature_id (Suc q))) = Inr (set (m_all_systems t ! q))"
proof -
  from assms have small: "Suc q < 2 ^ 16" by simp
  then have "Suc q < 2 ^ 64" by simp
  then have st: "stoull (to_string (Suc q)) = Inr (of_nat (Suc q))" by (rule stoull_to_string)
  have un: "unat (of_nat (Suc q) :: 64 word) = Suc q"
    using \<open>Suc q < 2 ^ 64\<close> by (rule unat_of_nat_64)
  then have nz: "(of_nat (Suc q) :: 64 word) \<noteq> 0" by (metis Zero_not_Suc unat_0)
  show ?thesis
    using assms(1) st un nz
    by (simp add: system2features_def to_feature_id_small [OF small] system_name_def bind_error_def
        del: of_nat_Suc)
qed

subsection \<open>Difference expressions\<close>

lemma sysname_inj:
  assumes "q < 2 ^ 16 - 1" "q' < 2 ^ 16 - 1" "sysname q = sysname q'"
  shows "q = q'"
proof -
  from assms(1,2) have "Suc q < 2 ^ 16" "Suc q' < 2 ^ 16" by simp_all
  then have "to_feature_id (Suc q) = Suc q" "to_feature_id (Suc q') = Suc q'"
    by (simp_all add: to_feature_id_small)
  with assms(3) show ?thesis by (auto simp: sysname_def dest: system_name_inj)
qed

lemma isolation_loop_eq:
  "isolation_loop f systems k d =
     \<lparr>intersections = intersections d \<union> sysname ` {k + q |q. q < length systems \<and> f \<in> set (systems ! q)},
      unions = unions d \<union> sysname ` {k + q |q. q < length systems \<and> f \<notin> set (systems ! q)}\<rparr>"
proof (induction systems arbitrary: k d)
  case Nil
  then show ?case by simp
next
  case (Cons s systems)
  have split: "{k + q |q. q < length (s # systems) \<and> Q ((s # systems) ! q)}
        = (if Q s then {k} else {}) \<union> {Suc k + q |q. q < length systems \<and> Q (systems ! q)}"
    for Q :: "string list \<Rightarrow> bool"
  proof (intro equalityI subsetI)
    fix x assume "x \<in> {k + q |q. q < length (s # systems) \<and> Q ((s # systems) ! q)}"
    then obtain q where q: "x = k + q" "q < length (s # systems)" "Q ((s # systems) ! q)" by blast
    show "x \<in> (if Q s then {k} else {}) \<union> {Suc k + q |q. q < length systems \<and> Q (systems ! q)}"
    proof (cases q)
      case 0
      with q show ?thesis by simp
    next
      case (Suc q')
      with q have "x = Suc k + q'" "q' < length systems" "Q (systems ! q')" by simp_all
      then show ?thesis by blast
    qed
  next
    fix x assume "x \<in> (if Q s then {k} else {}) \<union> {Suc k + q |q. q < length systems \<and> Q (systems ! q)}"
    then consider "Q s" "x = k" | q where "x = Suc k + q" "q < length systems" "Q (systems ! q)"
      by (auto split: if_splits)
    then show "x \<in> {k + q |q. q < length (s # systems) \<and> Q ((s # systems) ! q)}"
    proof cases
      case 1
      then have "x = k + 0 \<and> 0 < length (s # systems) \<and> Q ((s # systems) ! 0)" by simp
      then show ?thesis by blast
    next
      case 2
      then have "x = k + Suc q \<and> Suc q < length (s # systems) \<and> Q ((s # systems) ! Suc q)" by simp
      then show ?thesis by blast
    qed
  qed
  show ?case
    unfolding split [of "\<lambda>s. f \<in> set s"] split [of "\<lambda>s. f \<notin> set s"]
    by (simp add: Cons.IH Let_def contains_def sysname_def Un_commute insert_commute)
qed

lemma isolation_loop_start:
  "isolation_loop f systems 0 \<lparr>intersections = {}, unions = {}\<rparr> =
     \<lparr>intersections = sysname ` {q. q < length systems \<and> f \<in> set (systems ! q)},
      unions = sysname ` {q. q < length systems \<and> f \<notin> set (systems ! q)}\<rparr>"
  by (simp add: isolation_loop_eq)

lemma feature_isolations_loop_eq:
  "feature_isolations_loop fs systems m =
     (\<lambda>f. if f \<in> dom m then m f
          else if f \<in> set fs
               then Some (isolation_loop f systems 0 \<lparr>intersections = {}, unions = {}\<rparr>)
               else None)"
proof (induction fs arbitrary: m)
  case Nil
  then show ?case by (auto simp: fun_eq_iff)
next
  case (Cons f fs)
  show ?case
    unfolding feature_isolations_loop.simps Cons.IH
    by (auto simp: fun_eq_iff map_insert_def)
qed

lemma generate_feature_isolations_eq:
  "generate_feature_isolations fs systems =
     (\<lambda>f. if f \<in> set fs
          then Some \<lparr>intersections = sysname ` {q. q < length systems \<and> f \<in> set (systems ! q)},
                     unions = sysname ` {q. q < length systems \<and> f \<notin> set (systems ! q)}\<rparr>
          else None)"
  unfolding generate_feature_isolations_def feature_isolations_loop_eq isolation_loop_start
  by simp

lemma difference_loop_eq:
  "difference_loop s k todo d =
     \<lparr>intersections = intersections d \<union> sysname ` {q. k \<le> q \<and> q < k + todo \<and> s AND push_bit q 1 \<noteq> 0},
      unions = unions d \<union> sysname ` {q. k \<le> q \<and> q < k + todo \<and> \<not> s AND push_bit q 1 \<noteq> 0}\<rparr>"
proof (induction todo arbitrary: k d)
  case 0
  have e: "{q. k \<le> q \<and> q < k \<and> Q q} = {}" for Q :: "nat \<Rightarrow> bool" by auto
  show ?case by (simp add: e)
next
  case (Suc todo)
  have split: "{q. k \<le> q \<and> q < k + Suc todo \<and> Q q}
        = (if Q k then {k} else {}) \<union> {q. Suc k \<le> q \<and> q < Suc k + todo \<and> Q q}"
    for Q :: "nat \<Rightarrow> bool"
    by (auto simp: le_eq_less_or_eq Suc_le_eq)
  show ?case
    unfolding split [of "\<lambda>q. s AND push_bit q 1 \<noteq> 0"] split [of "\<lambda>q. \<not> s AND push_bit q 1 \<noteq> 0"]
    by (simp add: Suc.IH sysname_def Un_commute insert_commute)
qed

lemma difference_loop_start:
  "difference_loop s 0 todo \<lparr>intersections = {}, unions = {}\<rparr> =
     \<lparr>intersections = sysname ` {q. q < todo \<and> bit s q},
      unions = sysname ` {q. q < todo \<and> \<not> bit s q}\<rparr>"
  by (simp add: difference_loop_eq bit_iff_and_push_bit_not_eq_0)

lemma system2features_sysname:
  assumes "q < length (m_all_systems t)" "length (m_all_systems t) < 2 ^ 16"
  shows "system2features t (sysname q) = Inr (set (m_all_systems t ! q))"
  unfolding sysname_def using assms by (rule system2features_name)

lemma intersections_loop_eq:
  assumes L: "length (m_all_systems t) < 2 ^ 16"
    and xs: "\<forall>x \<in> set xs. \<exists>q < length (m_all_systems t). x = sysname q"
    and fin: "finite R"
  shows "intersections_loop t xs R
         = Inr (R \<inter> {g. \<forall>q < length (m_all_systems t). sysname q \<in> set xs \<longrightarrow> g \<in> set (m_all_systems t ! q)})"
  using xs fin
proof (induction xs arbitrary: R)
  case Nil
  then show ?case by simp
next
  case (Cons x xs)
  let ?L = "length (m_all_systems t)"
  from Cons.prems(1) obtain q0 where q0: "q0 < ?L" "x = sysname q0" by auto
  have s2f: "system2features t x = Inr (set (m_all_systems t ! q0))"
    using q0 L by (simp add: system2features_sysname)
  have only: "q = q0" if "q < ?L" "sysname q = x" for q
    using that q0 L by (intro sysname_inj) simp_all
  have set_eq: "{g. \<forall>q < ?L. sysname q \<in> set (x # xs) \<longrightarrow> g \<in> set (m_all_systems t ! q)}
        = set (m_all_systems t ! q0) \<inter> {g. \<forall>q < ?L. sysname q \<in> set xs \<longrightarrow> g \<in> set (m_all_systems t ! q)}"
    using q0 only by auto
  let ?R = "R \<inter> set (m_all_systems t ! q0)"
  have finR: "finite ?R" using Cons.prems(2) by simp
  show ?case
  proof (cases "card ?R = 0")
    case True
    with finR have "?R = {}" by simp
    then have "R \<inter> {g. \<forall>q < ?L. sysname q \<in> set (x # xs) \<longrightarrow> g \<in> set (m_all_systems t ! q)} = {}"
      unfolding set_eq by blast
    with True \<open>?R = {}\<close> show ?thesis by (simp add: s2f Let_def)
  next
    case False
    from Cons.prems(1) have "\<forall>x \<in> set xs. \<exists>q < ?L. x = sysname q" by simp
    from Cons.IH [OF this finR]
    have "intersections_loop t xs ?R
          = Inr (?R \<inter> {g. \<forall>q < ?L. sysname q \<in> set xs \<longrightarrow> g \<in> set (m_all_systems t ! q)})" .
    with False show ?thesis
      unfolding set_eq by (simp add: s2f Let_def Int_assoc)
  qed
qed

lemma unions_loop_eq:
  assumes L: "length (m_all_systems t) < 2 ^ 16"
    and xs: "\<forall>x \<in> set xs. \<exists>q < length (m_all_systems t). x = sysname q"
  shows "unions_loop t xs R
         = Inr (R \<union> {g. \<exists>q < length (m_all_systems t). sysname q \<in> set xs \<and> g \<in> set (m_all_systems t ! q)})"
  using xs
proof (induction xs arbitrary: R)
  case Nil
  then show ?case by simp
next
  case (Cons x xs)
  let ?L = "length (m_all_systems t)"
  from Cons.prems(1) obtain q0 where q0: "q0 < ?L" "x = sysname q0" by auto
  have s2f: "system2features t x = Inr (set (m_all_systems t ! q0))"
    using q0 L by (simp add: system2features_sysname)
  have only: "q = q0" if "q < ?L" "sysname q = x" for q
    using that q0 L by (intro sysname_inj) simp_all
  have set_eq: "{g. \<exists>q < ?L. sysname q \<in> set (x # xs) \<and> g \<in> set (m_all_systems t ! q)}
        = set (m_all_systems t ! q0) \<union> {g. \<exists>q < ?L. sysname q \<in> set xs \<and> g \<in> set (m_all_systems t ! q)}"
    using q0 only by auto
  from Cons.prems(1) have "\<forall>x \<in> set xs. \<exists>q < ?L. x = sysname q" by simp
  from Cons.IH [OF this, of "R \<union> set (m_all_systems t ! q0)"]
  show ?case unfolding set_eq by (simp add: s2f Un_assoc)
qed

lemma sorted_list_of_set_cases:
  fixes A :: "string set"
  assumes "finite A" "A \<noteq> {}"
  obtains first rest where "sorted_list_of_set A = first # rest" "insert first (set rest) = A"
proof -
  from assms have "sorted_list_of_set A \<noteq> []" by simp
  then obtain first rest where fr: "sorted_list_of_set A = first # rest"
    by (cases "sorted_list_of_set A") auto
  have "set (sorted_list_of_set A) = A" using assms(1) by simp
  with fr have "insert first (set rest) = A" by simp
  with fr show ?thesis by (rule that)
qed

lemma evaluate_intersections_eq:
  assumes L: "length (m_all_systems t) < 2 ^ 16"
    and I: "finite (intersections diff)"
       "intersections diff \<subseteq> sysname ` {q. q < length (m_all_systems t)}"
  shows "evaluate_intersections t diff
         = Inr (if intersections diff = {} then {}
                else {g. \<forall>q < length (m_all_systems t).
                           sysname q \<in> intersections diff \<longrightarrow> g \<in> set (m_all_systems t ! q)})"
proof (cases "intersections diff = {}")
  case True
  then show ?thesis by (simp add: evaluate_intersections_def)
next
  case False
  let ?L = "length (m_all_systems t)"
  from I(1) False have card: "1 \<le> card (intersections diff)"
    by (simp add: Suc_leI card_gt_0_iff)
  from I(1) False obtain first rest where fr:
    "sorted_list_of_set (intersections diff) = first # rest"
    "insert first (set rest) = intersections diff"
    by (rule sorted_list_of_set_cases)
  from fr(2) I(2) obtain q0 where q0: "q0 < ?L" "first = sysname q0" by auto
  have s2f: "system2features t first = Inr (set (m_all_systems t ! q0))"
    using q0 L by (simp add: system2features_sysname)
  have only: "q = q0" if "q < ?L" "sysname q = first" for q
    using that q0 L by (intro sysname_inj) simp_all
  have rest: "\<forall>x \<in> set rest. \<exists>q < ?L. x = sysname q"
    using fr(2) I(2) by auto
  have loop: "intersections_loop t rest (set (m_all_systems t ! q0))
        = Inr (set (m_all_systems t ! q0)
               \<inter> {g. \<forall>q < ?L. sysname q \<in> set rest \<longrightarrow> g \<in> set (m_all_systems t ! q)})"
    by (rule intersections_loop_eq [OF L rest]) simp
  have "set (m_all_systems t ! q0)
               \<inter> {g. \<forall>q < ?L. sysname q \<in> set rest \<longrightarrow> g \<in> set (m_all_systems t ! q)}
        = {g. \<forall>q < ?L. sysname q \<in> intersections diff \<longrightarrow> g \<in> set (m_all_systems t ! q)}"
    unfolding fr(2) [symmetric] using q0 only by auto
  with loop False card show ?thesis
    by (simp add: evaluate_intersections_def fr(1) s2f)
qed

lemma evaluate_unions_eq:
  assumes L: "length (m_all_systems t) < 2 ^ 16"
    and U: "finite (unions diff)"
       "unions diff \<subseteq> sysname ` {q. q < length (m_all_systems t)}"
  shows "evaluate_unions t diff
         = Inr {g. \<exists>q < length (m_all_systems t).
                     sysname q \<in> unions diff \<and> g \<in> set (m_all_systems t ! q)}"
proof (cases "unions diff = {}")
  case True
  then show ?thesis by (simp add: evaluate_unions_def)
next
  case False
  let ?L = "length (m_all_systems t)"
  from U(1) False have card: "1 \<le> card (unions diff)"
    by (simp add: Suc_leI card_gt_0_iff)
  from U(1) False obtain first rest where fr:
    "sorted_list_of_set (unions diff) = first # rest"
    "insert first (set rest) = unions diff"
    by (rule sorted_list_of_set_cases)
  from fr(2) U(2) obtain q0 where q0: "q0 < ?L" "first = sysname q0" by auto
  have s2f: "system2features t first = Inr (set (m_all_systems t ! q0))"
    using q0 L by (simp add: system2features_sysname)
  have only: "q = q0" if "q < ?L" "sysname q = first" for q
    using that q0 L by (intro sysname_inj) simp_all
  have rest: "\<forall>x \<in> set rest. \<exists>q < ?L. x = sysname q"
    using fr(2) U(2) by auto
  have loop: "unions_loop t rest (set (m_all_systems t ! q0))
        = Inr (set (m_all_systems t ! q0)
               \<union> {g. \<exists>q < ?L. sysname q \<in> set rest \<and> g \<in> set (m_all_systems t ! q)})"
    by (rule unions_loop_eq [OF L rest])
  have "set (m_all_systems t ! q0)
               \<union> {g. \<exists>q < ?L. sysname q \<in> set rest \<and> g \<in> set (m_all_systems t ! q)}
        = {g. \<exists>q < ?L. sysname q \<in> unions diff \<and> g \<in> set (m_all_systems t ! q)}"
    unfolding fr(2) [symmetric] using q0 only by auto
  with loop False card show ?thesis
    by (simp add: evaluate_unions_def fr(1) s2f)
qed

subsection \<open>The counts of the taxonomy\<close>

lemma product_loop_fact:
  assumes "unat to = m"
  shows "product_loop 1 to r = r * of_nat (fact m)"
  using assms
proof (induction m arbitrary: to r)
  case 0
  then have "to = 0" by (simp add: unat_eq_0)
  then show ?case by (subst product_loop.simps) simp
next
  case (Suc m)
  then have nz: "to \<noteq> 0" by auto
  then have le: "1 \<le> to" by (simp add: word_le_nat_alt Suc_leI unat_gt_0)
  have "unat (to - 1) = m" using Suc.prems nz by (simp add: unat_minus_one)
  from Suc.IH [OF this] have "product_loop 1 (to - 1) (r * to) = r * to * of_nat (fact m)" .
  moreover have "to = of_nat (Suc m)"
  proof -
    have "(of_nat (unat to) :: 64 word) = to" by simp
    then show ?thesis unfolding Suc.prems by simp
  qed
  ultimately show ?case
    using le by (subst product_loop.simps) (simp add: algebra_simps)
qed

lemma factorial_eq: "factorial k = of_nat (fact (unat k))"
proof (cases "k = 0")
  case True
  then show ?thesis by (simp add: factorial_def)
next
  case False
  then show ?thesis
    using product_loop_fact [of k "unat k" 1] by (simp add: factorial_def product_u_def)
qed

lemma fact_20_bound: "fact m < (2::nat) ^ 64" if "m \<le> 20"
proof -
  have "fact m \<le> (fact 20 :: nat)" using that by (rule fact_mono)
  also have "(fact 20 :: nat) < 2 ^ 64" by (simp add: fact_numeral)
  finally show ?thesis .
qed

lemma factorial_nonzero:
  assumes "unat k \<le> 20"
  shows "factorial k \<noteq> 0"
proof -
  have "unat (of_nat (fact (unat k)) :: 64 word) = fact (unat k)"
    using fact_20_bound [OF assms] by (rule unat_of_nat_64)
  moreover have "(fact (unat k) :: nat) \<noteq> 0" by simp
  ultimately have "(of_nat (fact (unat k)) :: 64 word) \<noteq> 0" by (metis unat_0)
  then show ?thesis by (simp add: factorial_eq)
qed

lemma sum_loop_ok:
  assumes "unat n \<le> 20"
  shows "\<exists>c. sum_loop n k result = Inr c"
  using assms
proof (induction n k result rule: sum_loop.induct)
  case (1 n k result)
  show ?case
  proof (cases "k \<le> unat n")
    case True
    then have "k < 2 ^ 64" using "1.prems" by simp
    then have "unat (of_nat k :: 64 word) = k" by (rule unat_of_nat_64)
    with True "1.prems" have "factorial (of_nat k) \<noteq> 0" by (intro factorial_nonzero) simp
    then obtain c where c: "combinations_u n (of_nat k) = Inr c" by (simp add: combinations_u_def)
    from "1.IH" [OF True c "1.prems"] obtain c' where "sum_loop n (Suc k) (result + c) = Inr c'" by blast
    with True c show ?thesis by (subst sum_loop.simps) simp
  next
    case False
    then show ?thesis by (subst sum_loop.simps) simp
  qed
qed

lemma sum_of_combinations_ok:
  assumes "n \<le> 20"
  shows "\<exists>c. sum_of_combinations (of_nat n) 2 = Inr c"
proof -
  have "n < 2 ^ 64" using assms by simp
  then have "unat (of_nat n :: 64 word) = n" by (rule unat_of_nat_64)
  with assms show ?thesis unfolding sum_of_combinations_def by (intro sum_loop_ok) simp
qed

subsection \<open>The enumeration strategy\<close>

lemma not_prerequisite: "hasON M \<Longrightarrow> hasN M" "hasAN M \<Longrightarrow> hasN M"
  unfolding hasON_def hasAN_def hasN_def by blast+

lemma all_features_names:
  assumes tax: "is_taxonomy n M t" and n: "n < 64"
  shows "all_independent_features t = map term_name (map F_indep [1..<Suc n])"
    and "all_or_features t = Inr (map term_name (if hasO M then map F_or (dependent_ids n) else []))"
    and "all_and_features t = Inr (map term_name (if hasA M then map F_and (dependent_ids n) else []))"
    and "all_not_features t = map term_name (if hasN M then map F_not [1..<Suc n] else [])"
    and "all_or_not_features t = Inr (map term_name (if hasON M then map F_or_not (dependent_ids n) else []))"
    and "all_and_not_features t = Inr (map term_name (if hasAN M then map F_and_not (dependent_ids n) else []))"
proof -
  from tax have t: "m_n t = n" "m_M t = M" "m_raw_independent_features t = [1..<Suc n]"
    "m_N t = (if hasN M then of_nat n else 0)"
    by (simp_all add: is_taxonomy_def)
  show "all_independent_features t = map term_name (map F_indep [1..<Suc n])"
    by (simp add: all_independent_features_def generate_independent_features_def t
        independent_feature_name_eq comp_def)
  show "all_not_features t = map term_name (if hasN M then map F_not [1..<Suc n] else [])"
    by (simp add: all_not_features_def t not_feature_name_eq comp_def)
  show "all_or_features t = Inr (map term_name (if hasO M then map F_or (dependent_ids n) else []))"
    using names_loop_dependent [of or_feature_name "\<lambda>ids. term_name (F_or ids)" n]
    by (simp add: all_or_features_def t or_feature_name_eq comp_def)
  show "all_and_features t = Inr (map term_name (if hasA M then map F_and (dependent_ids n) else []))"
    using names_loop_dependent [of and_feature_name "\<lambda>ids. term_name (F_and ids)" n]
    by (simp add: all_and_features_def t and_feature_name_eq comp_def)
  have N: "unat (m_N t) = n" if "hasN M"
    using that n by (simp add: t unat_of_nat_small)
  show "all_or_not_features t = Inr (map term_name (if hasON M then map F_or_not (dependent_ids n) else []))"
    using names_loop_dependent [of or_not_feature_name "\<lambda>ids. term_name (F_or_not ids)" n]
      N not_prerequisite(1) [of M]
    by (auto simp: all_or_not_features_def t or_not_feature_name_eq comp_def)
  show "all_and_not_features t = Inr (map term_name (if hasAN M then map F_and_not (dependent_ids n) else []))"
    using names_loop_dependent [of and_not_feature_name "\<lambda>ids. term_name (F_and_not ids)" n]
      N not_prerequisite(2) [of M]
    by (auto simp: all_and_not_features_def t and_not_feature_name_eq comp_def)
qed

lemma make_feature_location_isolation_ok:
  assumes n: "n \<le> 20"
  shows "\<exists>t. make_feature_location_isolation n M = Inr t \<and> is_taxonomy n M t \<and>
             m_all_features t = sort (map term_name (feature_terms n M)) \<and>
             m_feature_isolations t = generate_feature_isolations (m_all_features t) (m_all_systems t)"
proof -
  from n have n64: "n < 64" by simp
  from make_feature_location_ok [OF n64 sum_of_combinations_ok [OF n], of M] obtain t where
    t: "make_feature_location n M = Inr t" "is_taxonomy n M t" by blast
  note names = all_features_names [OF t(2) n64]
  have all: "all_independent_features t
        @ map term_name (if hasO M then map F_or (dependent_ids n) else [])
        @ map term_name (if hasA M then map F_and (dependent_ids n) else [])
        @ all_not_features t
        @ map term_name (if hasON M then map F_or_not (dependent_ids n) else [])
        @ map term_name (if hasAN M then map F_and_not (dependent_ids n) else [])
        = map term_name (feature_terms n M)"
    unfolding names feature_terms_def map_append ..
  let ?fs = "sort (map term_name (feature_terms n M))"
  let ?t = "feature_location_t.extend t
                 \<lparr>m_independent_features = all_independent_features t,
                  m_or_features = map term_name (if hasO M then map F_or (dependent_ids n) else []),
                  m_and_features = map term_name (if hasA M then map F_and (dependent_ids n) else []),
                  m_not_features = all_not_features t,
                  m_or_not_features = map term_name (if hasON M then map F_or_not (dependent_ids n) else []),
                  m_and_not_features = map term_name (if hasAN M then map F_and_not (dependent_ids n) else []),
                  m_all_features = ?fs,
                  m_feature_isolations = generate_feature_isolations ?fs (m_all_systems t)\<rparr>"
  have "make_feature_location_isolation n M = Inr ?t"
    by (simp only: make_feature_location_isolation_def t(1) bind_error_def sum.case
        names(2,3,5,6) Let_def all)
  moreover have "is_taxonomy n M ?t" using t(2) by (simp add: is_taxonomy_def feature_location_t.defs)
  moreover have "m_all_features ?t = ?fs" by (simp add: feature_location_t.defs)
  moreover have "m_feature_isolations ?t = generate_feature_isolations (m_all_features ?t) (m_all_systems ?t)"
    by (simp add: feature_location_t.defs)
  ultimately show ?thesis by blast
qed

lemma sysname_mem_image:
  assumes "q < 2 ^ 16 - 1" "A \<subseteq> {q. q < 2 ^ 16 - 1}"
  shows "sysname q \<in> sysname ` A \<longleftrightarrow> q \<in> A"
proof
  assume "sysname q \<in> sysname ` A"
  then obtain q' where q': "q' \<in> A" "sysname q = sysname q'" by blast
  with assms have "q = q'" by (intro sysname_inj) auto
  with q' show "q \<in> A" by simp
qed simp

lemma evaluate_difference_split:
  assumes L: "length (m_all_systems t) < 2 ^ 16"
  shows "evaluate_difference t
           \<lparr>intersections = sysname ` {q. q < length (m_all_systems t) \<and> Q q},
            unions = sysname ` {q. q < length (m_all_systems t) \<and> \<not> Q q}\<rparr>
         = Inr {g. (\<exists>q < length (m_all_systems t). Q q) \<and>
                   (\<forall>q < length (m_all_systems t). g \<in> set (m_all_systems t ! q) \<longleftrightarrow> Q q)}"
proof -
  let ?L = "length (m_all_systems t)"
  let ?I = "sysname ` {q. q < ?L \<and> Q q}" and ?U = "sysname ` {q. q < ?L \<and> \<not> Q q}"
  let ?d = "\<lparr>intersections = ?I, unions = ?U\<rparr>"
  have memI: "sysname q \<in> ?I \<longleftrightarrow> Q q" if "q < ?L" for q
    using that L by (subst sysname_mem_image) auto
  have memU: "sysname q \<in> ?U \<longleftrightarrow> \<not> Q q" if "q < ?L" for q
    using that L by (subst sysname_mem_image) auto
  have I: "evaluate_intersections t ?d
        = Inr (if ?I = {} then {} else {g. \<forall>q < ?L. sysname q \<in> ?I \<longrightarrow> g \<in> set (m_all_systems t ! q)})"
  proof -
    have "evaluate_intersections t ?d
        = Inr (if intersections ?d = {} then {}
               else {g. \<forall>q < ?L. sysname q \<in> intersections ?d \<longrightarrow> g \<in> set (m_all_systems t ! q)})"
    proof (rule evaluate_intersections_eq [OF L])
      show "finite (intersections ?d)" by simp
      show "intersections ?d \<subseteq> sysname ` {q. q < ?L}" by auto
    qed
    then show ?thesis by (simp only: systems_difference_t.simps)
  qed
  have U: "evaluate_unions t ?d
        = Inr {g. \<exists>q < ?L. sysname q \<in> ?U \<and> g \<in> set (m_all_systems t ! q)}"
  proof -
    have "evaluate_unions t ?d
        = Inr {g. \<exists>q < ?L. sysname q \<in> unions ?d \<and> g \<in> set (m_all_systems t ! q)}"
    proof (rule evaluate_unions_eq [OF L])
      show "finite (unions ?d)" by simp
      show "unions ?d \<subseteq> sysname ` {q. q < ?L}" by auto
    qed
    then show ?thesis by (simp only: systems_difference_t.simps)
  qed
  have empty: "?I = {} \<longleftrightarrow> \<not> (\<exists>q < ?L. Q q)" by auto
  have "(if ?I = {} then {} else {g. \<forall>q < ?L. sysname q \<in> ?I \<longrightarrow> g \<in> set (m_all_systems t ! q)})
          - {g. \<exists>q < ?L. sysname q \<in> ?U \<and> g \<in> set (m_all_systems t ! q)}
        = {g. (\<exists>q < ?L. Q q) \<and> (\<forall>q < ?L. g \<in> set (m_all_systems t ! q) \<longleftrightarrow> Q q)}"
  proof (cases "\<exists>q < ?L. Q q")
    case False
    with empty show ?thesis by simp
  next
    case True
    with empty have ne: "?I \<noteq> {}" by simp
    have "{g. \<forall>q < ?L. sysname q \<in> ?I \<longrightarrow> g \<in> set (m_all_systems t ! q)}
          - {g. \<exists>q < ?L. sysname q \<in> ?U \<and> g \<in> set (m_all_systems t ! q)}
        = {g. \<forall>q < ?L. g \<in> set (m_all_systems t ! q) \<longleftrightarrow> Q q}"
      using memI memU by blast
    with True ne show ?thesis by (simp only: if_False) simp
  qed
  then show ?thesis
    by (simp only: evaluate_difference_def I U sum.case)
qed






subsection \<open>The exhaustive strategy\<close>

lemma generate_difference_eq:
  "generate_difference t s =
     \<lparr>intersections = sysname ` {q. q < unat (m_S t) \<and> bit s q},
      unions = sysname ` {q. q < unat (m_S t) \<and> \<not> bit s q}\<rparr>"
  by (simp only: generate_difference_def difference_loop_start)

lemma difference_evaluation:
  assumes len: "length (m_all_systems t) = unat (m_S t)" and L: "unat (m_S t) < 2 ^ 16"
  shows "evaluate_difference t (generate_difference t s)
         = Inr {g. (\<exists>q < unat (m_S t). bit s q) \<and>
                   (\<forall>q < unat (m_S t). g \<in> set (m_all_systems t ! q) \<longleftrightarrow> bit s q)}"
proof -
  from len L have L': "length (m_all_systems t) < 2 ^ 16" by simp
  show ?thesis
    using evaluate_difference_split [OF L', of "\<lambda>q. bit s q"]
    by (simp only: generate_difference_eq len)
qed

lemma non_empty_differences_loop_ok:
  assumes "\<forall>e' \<in> {e..<unat (m_D t)}.
             \<exists>r. evaluate_difference t (generate_difference t (of_nat e')) = Inr r \<and> card r \<le> 1"
  shows "non_empty_differences_loop t e result =
           Inr (result @
                map (\<lambda>e. \<lparr>difference_id = of_nat e,
                          feature = the_elem (projr (evaluate_difference t (generate_difference t (of_nat e)))),
                          difference = generate_difference t (of_nat e)\<rparr>)
                    (filter (\<lambda>e. \<exists>x. evaluate_difference t (generate_difference t (of_nat e)) = Inr {x})
                       [e..<unat (m_D t)]))"
  using assms
proof (induction "unat (m_D t) - e" arbitrary: e result)
  case 0
  then have "\<not> e < unat (m_D t)" by simp
  then show ?case by (subst non_empty_differences_loop.simps) simp
next
  case (Suc k)
  then have e: "e < unat (m_D t)" by simp
  with Suc.prems obtain r where
    r: "evaluate_difference t (generate_difference t (of_nat e)) = Inr r" "card r \<le> 1"
    by fastforce
  have k: "k = unat (m_D t) - Suc e" using Suc.hyps(2) by simp
  have rest: "\<forall>e' \<in> {Suc e..<unat (m_D t)}.
             \<exists>r. evaluate_difference t (generate_difference t (of_nat e')) = Inr r \<and> card r \<le> 1"
    using Suc.prems by simp
  note IH = Suc.hyps(1) [OF k rest]
  have upt: "[e..<unat (m_D t)] = e # [Suc e..<unat (m_D t)]"
    using e by (rule upt_conv_Cons)
  show ?case
  proof (cases "card r = 1")
    case True
    then obtain x where x: "r = {x}" by (rule card_1_singletonE)
    show ?thesis
      by (subst non_empty_differences_loop.simps) (simp add: e r(1) x IH upt Let_def)
  next
    case False
    with r(2) have c: "card r = 0" by simp
    then have "\<nexists>x. r = {x}" by auto
    then show ?thesis
      by (subst non_empty_differences_loop.simps) (simp add: e r(1) c IH upt Let_def)
  qed
qed

lemma non_empty_differences_loop_abort:
  assumes "e \<le> e0" "e0 < unat (m_D t)"
    and "evaluate_difference t (generate_difference t (of_nat e0)) = Inr r0" "1 < card r0"
    and "\<forall>e' \<in> {e..<e0}.
             \<exists>r. evaluate_difference t (generate_difference t (of_nat e')) = Inr r \<and> card r \<le> 1"
  shows "non_empty_differences_loop t e result =
           Inl (Length_error (''Set size = '' @ to_string (card r0) @ '', must be 1!''))"
  using assms(1,5)
proof (induction "e0 - e" arbitrary: e result)
  case 0
  then have e: "e = e0" by simp
  show ?case
    using assms(2,3,4) by (subst non_empty_differences_loop.simps) (simp add: e Let_def)
next
  case (Suc k)
  then have e: "e < e0" "e < unat (m_D t)" using assms(2) by simp_all
  with Suc.prems obtain r where
    r: "evaluate_difference t (generate_difference t (of_nat e)) = Inr r" "card r \<le> 1"
    by fastforce
  have k: "k = e0 - Suc e" using Suc.hyps(2) by simp
  have rest: "\<forall>e' \<in> {Suc e..<e0}.
             \<exists>r. evaluate_difference t (generate_difference t (of_nat e')) = Inr r \<and> card r \<le> 1"
    using Suc.prems by simp
  from e have le: "Suc e \<le> e0" by simp
  note IH = Suc.hyps(1) [OF k le rest]
  show ?case
  proof (cases "card r = 1")
    case True
    then show ?thesis
      by (subst non_empty_differences_loop.simps) (simp add: e r(1) IH Let_def)
  next
    case False
    with r(2) have c: "card r = 0" by simp
    then show ?thesis
      by (subst non_empty_differences_loop.simps) (simp add: e r(1) c IH Let_def)
  qed
qed

lemma all_less_two: "(\<forall>q<(2::nat). P q) \<longleftrightarrow> P 0 \<and> P 1"
  by (auto simp: less_2_cases_iff)

lemma ex_less_two: "(\<exists>q<(2::nat). P q) \<longleftrightarrow> P 0 \<or> P 1"
  by (auto simp: less_2_cases_iff)

lemma set_less_two: "{q. q < (2::nat) \<and> P q} = (if P 0 then {0} else {}) \<union> (if P 1 then {1} else {})"
proof (intro equalityI subsetI)
  fix q :: nat assume "q \<in> {q. q < (2::nat) \<and> P q}"
  then have "q = 0 \<or> q = 1" "P q" by auto
  then show "q \<in> (if P 0 then {0} else {}) \<union> (if P 1 then {1} else {})" by auto
next
  fix q :: nat assume "q \<in> (if P 0 then {0} else {}) \<union> (if P 1 then {1} else {})"
  then show "q \<in> {q. q < (2::nat) \<and> P q}" by (auto split: if_splits)
qed

lemma sysname_0_1: "sysname 0 = ''S1''" "sysname 1 = ''S2''" "sysname (Suc 0) = ''S2''"
  by (simp_all add: sysname_def system_name_def to_feature_id_def to_string.simps)

text \<open>
  C3: \<^verbatim>\<open>generate_non_empty_differences\<close> runs over the difference IDs \<open>e = 1, ..., D - 1\<close>.
  When every evaluation result has at most one element, it returns, in the order of the
  IDs, exactly the triples (id, feature, difference) of the IDs whose result is a
  singleton, the feature being its only element; IDs with an empty result leave no entry
  and raise no error. When some ID has a result of more than one element (the IDs before
  it having results of at most one element), the function does not return a list: it
  fails with the length error that reports the size of that result.
\<close>

theorem non_empty_differences_keeps_singletons:
  "((\<forall>e \<in> {1..<unat (m_D t)}.
       \<exists>r. evaluate_difference t (generate_difference t (of_nat e)) = Inr r \<and> card r \<le> 1) \<longrightarrow>
    generate_non_empty_differences t =
      Inr (map (\<lambda>e. \<lparr>difference_id = of_nat e,
                     feature = the_elem (projr (evaluate_difference t (generate_difference t (of_nat e)))),
                     difference = generate_difference t (of_nat e)\<rparr>)
               (filter (\<lambda>e. \<exists>x. evaluate_difference t (generate_difference t (of_nat e)) = Inr {x})
                  [1..<unat (m_D t)]))) \<and>
   (\<forall>e0 r0. e0 \<in> {1..<unat (m_D t)} \<and>
       evaluate_difference t (generate_difference t (of_nat e0)) = Inr r0 \<and> 1 < card r0 \<and>
       (\<forall>e \<in> {1..<e0}.
          \<exists>r. evaluate_difference t (generate_difference t (of_nat e)) = Inr r \<and> card r \<le> 1) \<longrightarrow>
       generate_non_empty_differences t =
         Inl (Length_error (''Set size = '' @ to_string (card r0) @ '', must be 1!'')))"
proof (intro conjI impI allI)
  assume "\<forall>e \<in> {1..<unat (m_D t)}.
       \<exists>r. evaluate_difference t (generate_difference t (of_nat e)) = Inr r \<and> card r \<le> 1"
  from non_empty_differences_loop_ok [OF this, of "[]"]
  show "generate_non_empty_differences t =
      Inr (map (\<lambda>e. \<lparr>difference_id = of_nat e,
                     feature = the_elem (projr (evaluate_difference t (generate_difference t (of_nat e)))),
                     difference = generate_difference t (of_nat e)\<rparr>)
               (filter (\<lambda>e. \<exists>x. evaluate_difference t (generate_difference t (of_nat e)) = Inr {x})
                  [1..<unat (m_D t)]))"
    by (simp add: generate_non_empty_differences_def)
next
  fix e0 r0
  assume a: "e0 \<in> {1..<unat (m_D t)} \<and>
       evaluate_difference t (generate_difference t (of_nat e0)) = Inr r0 \<and> 1 < card r0 \<and>
       (\<forall>e \<in> {1..<e0}.
          \<exists>r. evaluate_difference t (generate_difference t (of_nat e)) = Inr r \<and> card r \<le> 1)"
  then have "1 \<le> e0" "e0 < unat (m_D t)" by simp_all
  from non_empty_differences_loop_abort [OF this, of r0 "[]"] a
  show "generate_non_empty_differences t =
         Inl (Length_error (''Set size = '' @ to_string (card r0) @ '', must be 1!''))"
    by (simp add: generate_non_empty_differences_def)
qed

theorem non_empty_differences_keeps_singletons_witness:
  "generate_non_empty_differences
     \<lparr>m_n = 1, m_F = 1, m_M = 1, m_S = 2, m_O = 0, m_A = 0, m_N = 0, m_ON = 0, m_AN = 0,
      m_I = 1, m_T = 1, m_D = 4, m_raw_independent_features = [1], m_raw_dependent_features = [],
      m_all_systems = [[], [''f1'']]\<rparr>
   = Inr [\<lparr>difference_id = 2, feature = ''f1'',
           difference = \<lparr>intersections = {''S2''}, unions = {''S1''}\<rparr>\<rparr>] \<and>
   generate_non_empty_differences
     \<lparr>m_n = 1, m_F = 1, m_M = 1, m_S = 2, m_O = 0, m_A = 0, m_N = 0, m_ON = 0, m_AN = 0,
      m_I = 1, m_T = 1, m_D = 4, m_raw_independent_features = [1], m_raw_dependent_features = [],
      m_all_systems = [[''f1'', ''g1''], []]\<rparr>
   = Inl (Length_error ''Set size = 2, must be 1!'')"
proof
  define t :: feature_location_t where "t =
     \<lparr>m_n = 1, m_F = 1, m_M = 1, m_S = 2, m_O = 0, m_A = 0, m_N = 0, m_ON = 0, m_AN = 0,
      m_I = 1, m_T = 1, m_D = 4, m_raw_independent_features = [1], m_raw_dependent_features = [],
      m_all_systems = [[], [''f1'']]\<rparr>"
  have sel: "m_S t = 2" "m_D t = 4" "m_all_systems t = [[], [''f1'']]" by (simp_all add: t_def)
  have ev: "evaluate_difference t (generate_difference t s)
            = Inr {g. (bit s 0 \<or> bit s 1) \<and> \<not> bit s 0 \<and> (g = ''f1'' \<longleftrightarrow> bit s 1)}" for s
    using difference_evaluation [of t s] by (simp add: sel all_less_two ex_less_two)
  have gd: "generate_difference t s =
      \<lparr>intersections = (if bit s 0 then {''S1''} else {}) \<union> (if bit s 1 then {''S2''} else {}),
       unions = (if bit s 0 then {} else {''S1''}) \<union> (if bit s 1 then {} else {''S2''})\<rparr>" for s
    by (simp add: generate_difference_eq sel set_less_two sysname_0_1)
  have e1: "evaluate_difference t (generate_difference t 1) = Inr {}" by (simp add: ev)
  have e2: "evaluate_difference t (generate_difference t 2) = Inr {''f1''}" by (auto simp: ev)
  have e3: "evaluate_difference t (generate_difference t 3) = Inr {}" by (simp add: ev)
  have cases: "e = 1 \<or> e = 2 \<or> e = 3" if "e \<in> {1..<4}" for e :: nat using that by auto
  have upt: "[1..<4] = [1, 2, 3::nat]" by code_simp
  have hyp: "\<forall>e \<in> {1..<unat (m_D t)}.
       \<exists>r. evaluate_difference t (generate_difference t (of_nat e)) = Inr r \<and> card r \<le> 1"
  proof
    fix e :: nat assume "e \<in> {1..<unat (m_D t)}"
    then have "e \<in> {1..<4}" by (simp add: sel)
    from cases [OF this] show "\<exists>r. evaluate_difference t (generate_difference t (of_nat e)) = Inr r \<and> card r \<le> 1"
      using e1 e2 e3 by auto
  qed
  have "generate_non_empty_differences t
        = Inr [\<lparr>difference_id = 2, feature = ''f1'',
           difference = \<lparr>intersections = {''S2''}, unions = {''S1''}\<rparr>\<rparr>]"
  proof -
    have gd2: "generate_difference t 2 = \<lparr>intersections = {''S2''}, unions = {''S1''}\<rparr>"
      by (simp add: gd)
    have "generate_non_empty_differences t =
      Inr (map (\<lambda>e. \<lparr>difference_id = of_nat e,
                     feature = the_elem (projr (evaluate_difference t (generate_difference t (of_nat e)))),
                     difference = generate_difference t (of_nat e)\<rparr>)
               (filter (\<lambda>e. \<exists>x. evaluate_difference t (generate_difference t (of_nat e)) = Inr {x})
                  [1..<unat (m_D t)]))"
      using non_empty_differences_keeps_singletons [of t] hyp by blast
    also have "[1..<unat (m_D t)] = [1, 2, 3]"
      using upt by (simp only: sel) simp
    also have "filter (\<lambda>e. \<exists>x. evaluate_difference t (generate_difference t (of_nat e)) = Inr {x})
                  [1, 2, 3] = [2]"
      by (simp add: e1 e2 e3)
    finally show ?thesis using e2 by (simp add: gd2)
  qed
  then show "generate_non_empty_differences
     \<lparr>m_n = 1, m_F = 1, m_M = 1, m_S = 2, m_O = 0, m_A = 0, m_N = 0, m_ON = 0, m_AN = 0,
      m_I = 1, m_T = 1, m_D = 4, m_raw_independent_features = [1], m_raw_dependent_features = [],
      m_all_systems = [[], [''f1'']]\<rparr>
   = Inr [\<lparr>difference_id = 2, feature = ''f1'',
           difference = \<lparr>intersections = {''S2''}, unions = {''S1''}\<rparr>\<rparr>]"
    by (simp only: t_def)
next
  define t :: feature_location_t where "t =
     \<lparr>m_n = 1, m_F = 1, m_M = 1, m_S = 2, m_O = 0, m_A = 0, m_N = 0, m_ON = 0, m_AN = 0,
      m_I = 1, m_T = 1, m_D = 4, m_raw_independent_features = [1], m_raw_dependent_features = [],
      m_all_systems = [[''f1'', ''g1''], []]\<rparr>"
  have sel: "m_S t = 2" "m_D t = 4" "m_all_systems t = [[''f1'', ''g1''], []]" by (simp_all add: t_def)
  have ev: "evaluate_difference t (generate_difference t s)
            = Inr {g. (bit s 0 \<or> bit s 1) \<and> ((g = ''f1'' \<or> g = ''g1'') \<longleftrightarrow> bit s 0) \<and> \<not> bit s 1}" for s
    using difference_evaluation [of t s] by (simp add: sel all_less_two ex_less_two)
  have e1: "evaluate_difference t (generate_difference t 1) = Inr {''f1'', ''g1''}" by (auto simp: ev)
  have c: "card {''f1'', ''g1''} = 2" by simp
  have str: "to_string (card {''f1'', ''g1''}) = ''2''" by (simp add: to_string.simps)
  have "generate_non_empty_differences t = Inl (Length_error ''Set size = 2, must be 1!'')"
  proof -
    have prem: "(1::nat) \<in> {1..<unat (m_D t)} \<and>
       evaluate_difference t (generate_difference t (of_nat 1)) = Inr {''f1'', ''g1''} \<and>
       1 < card {''f1'', ''g1''} \<and>
       (\<forall>e \<in> {1..<1::nat}.
          \<exists>r. evaluate_difference t (generate_difference t (of_nat e)) = Inr r \<and> card r \<le> 1)"
      by (simp add: sel e1)
    from non_empty_differences_keeps_singletons [of t]
    have "\<forall>e0 r0. e0 \<in> {1..<unat (m_D t)} \<and>
       evaluate_difference t (generate_difference t (of_nat e0)) = Inr r0 \<and> 1 < card r0 \<and>
       (\<forall>e \<in> {1..<e0}.
          \<exists>r. evaluate_difference t (generate_difference t (of_nat e)) = Inr r \<and> card r \<le> 1) \<longrightarrow>
       generate_non_empty_differences t =
         Inl (Length_error (''Set size = '' @ to_string (card r0) @ '', must be 1!''))"
      by (rule conjunct2)
    from this [rule_format, OF prem]
    show ?thesis by (simp only: str append.simps)
  qed
  then show "generate_non_empty_differences
     \<lparr>m_n = 1, m_F = 1, m_M = 1, m_S = 2, m_O = 0, m_A = 0, m_N = 0, m_ON = 0, m_AN = 0,
      m_I = 1, m_T = 1, m_D = 4, m_raw_independent_features = [1], m_raw_dependent_features = [],
      m_all_systems = [[''f1'', ''g1''], []]\<rparr>
   = Inl (Length_error ''Set size = 2, must be 1!'')"
    by (simp only: t_def)
qed

subsection \<open>System names beyond 65535 systems\<close>






lemma is_taxonomy_length:
  assumes "is_taxonomy n M t"
  shows "length (m_all_systems t) = 2 ^ n"
  using assms by (simp add: is_taxonomy_def)



subsection \<open>The constructor of the taxonomy\<close>

lemma is_taxonomy_system:
  assumes "is_taxonomy n M t" "p < 2 ^ n"
  shows "set (m_all_systems t ! p) = term_name ` system_terms n M (present p)"
  using assms by (simp add: is_taxonomy_def)

lemma is_taxonomy_fields:
  assumes "is_taxonomy n M t"
  shows "m_n t = n" "m_M t = M" "m_S t = 2 ^ n"
    "m_raw_independent_features t = [1..<Suc n]" "m_raw_dependent_features t = dependent_ids n"
  using assms by (simp_all add: is_taxonomy_def)

lemma make_feature_location_counts:
  assumes t: "make_feature_location n M = Inr t"
    and c: "sum_of_combinations (of_nat n) 2 = Inr c"
  shows "m_F t = of_nat n"
    and "m_O t = (if hasO M then c else 0)"
    and "m_A t = (if hasA M then c else 0)"
    and "m_N t = (if hasN M then of_nat n else 0)"
    and "m_ON t = (if hasON M then c else 0)"
    and "m_AN t = (if hasAN M then c else 0)"
    and "m_I t = m_O t + m_A t + m_N t + m_AN t + m_ON t"
    and "m_T t = of_nat n + m_O t + m_A t + m_N t + m_AN t + m_ON t"
proof -
  define c_O where "c_O = (if hasO M then c else 0)"
  define c_A where "c_A = (if hasA M then c else 0)"
  define c_ON where "c_ON = (if hasON M then c else 0)"
  define c_AN where "c_AN = (if hasAN M then c else 0)"
  define c_N :: maxnat_t where "c_N = (if hasN M then of_nat n else 0)"
  define t0 :: feature_location_t where "t0 =
     \<lparr>m_n = n, m_F = of_nat n, m_M = M, m_S = power2_u (of_nat n),
      m_O = c_O, m_A = c_A, m_N = c_N, m_ON = c_ON, m_AN = c_AN,
      m_I = c_O + c_A + c_N + c_AN + c_ON,
      m_T = of_nat n + c_O + c_A + c_N + c_AN + c_ON,
      m_D = power2_u (power2_u (of_nat n)),
      m_raw_independent_features = [1..<Suc n],
      m_raw_dependent_features = dependent_ids n,
      m_all_systems = []\<rparr>"
  have counts_eq:
    "count_if (hasO M) (sum_of_combinations (of_nat n) 2) = Inr c_O"
    "count_if (hasA M) (sum_of_combinations (of_nat n) 2) = Inr c_A"
    "count_if (hasON M) (sum_of_combinations (of_nat n) 2) = Inr c_ON"
    "count_if (hasAN M) (sum_of_combinations (of_nat n) 2) = Inr c_AN"
    by (simp_all add: count_if_def c c_O_def c_A_def c_ON_def c_AN_def)
  have rd: "raw_dependent_loop (n - 1) [1..<Suc n] 2 [] = Inr (dependent_ids n)"
    by (rule raw_dependent_loop_eq)
  have eq: "make_feature_location n M =
      bind_error (generate_all_systems t0) (\<lambda>systems. Inr (t0\<lparr>m_all_systems := systems\<rparr>))"
    by (simp only: make_feature_location_def counts_eq bind_error_def sum.case Let_def rd t0_def
        c_N_def)
  from t obtain sys where "t = t0\<lparr>m_all_systems := sys\<rparr>"
    unfolding eq bind_error_def by (cases "generate_all_systems t0") auto
  then have f: "m_F t = of_nat n" "m_O t = c_O" "m_A t = c_A" "m_N t = c_N" "m_ON t = c_ON"
    "m_AN t = c_AN" "m_I t = c_O + c_A + c_N + c_AN + c_ON"
    "m_T t = of_nat n + c_O + c_A + c_N + c_AN + c_ON"
    by (simp_all add: t0_def)
  show "m_F t = of_nat n" by (rule f)
  show "m_O t = (if hasO M then c else 0)" using f by (simp only: c_O_def)
  show "m_A t = (if hasA M then c else 0)" using f by (simp only: c_A_def)
  show "m_N t = (if hasN M then of_nat n else 0)" using f by (simp only: c_N_def)
  show "m_ON t = (if hasON M then c else 0)" using f by (simp only: c_ON_def)
  show "m_AN t = (if hasAN M then c else 0)" using f by (simp only: c_AN_def)
  show "m_I t = m_O t + m_A t + m_N t + m_AN t + m_ON t" by (simp only: f)
  show "m_T t = of_nat n + m_O t + m_A t + m_N t + m_AN t + m_ON t" by (simp only: f)
qed

lemma flags_in_range:
  "hasO M \<Longrightarrow> M \<in> {1..19}" "hasA M \<Longrightarrow> M \<in> {1..19}" "hasN M \<Longrightarrow> M \<in> {1..19}"
  "hasON M \<Longrightarrow> M \<in> {1..19}" "hasAN M \<Longrightarrow> M \<in> {1..19}"
  unfolding hasO_def hasA_def hasN_def hasON_def hasAN_def by (elim disjE; simp)+

lemma out_of_range_flags:
  assumes "M \<notin> {1..19}"
  shows "\<not> hasO M" "\<not> hasA M" "\<not> hasN M" "\<not> hasON M" "\<not> hasAN M"
  using assms flags_in_range [of M] by blast+

lemma independent_only_systems:
  assumes "\<not> hasO M" "\<not> hasA M" "\<not> hasN M" "\<not> hasON M" "\<not> hasAN M" "P \<subseteq> {1..n}"
  shows "term_name ` system_terms n M P = independent_feature_name ` P"
proof -
  have "system_terms n M P = F_indep ` P"
    using assms by (auto simp: system_terms_def feature_terms_def)
  then show ?thesis by (simp add: image_image independent_feature_name_eq)
qed

lemma dependent_ids_0: "dependent_ids 0 = []"
  by (simp add: dependent_ids_def)

lemma no_features_no_terms: "feature_terms 0 M = []"
  by (simp add: feature_terms_def dependent_ids_0)

lemma sum_of_combinations_0: "sum_of_combinations 0 2 = Inr 0"
  by (simp add: sum_of_combinations_def sum_loop.simps)

lemma construction_succeeds:
  assumes F: "F \<le> 20"
  shows "\<exists>t. make_feature_location F M = Inr t \<and> m_n t = F \<and> m_M t = M \<and>
           length (m_all_systems t) = 2 ^ F \<and>
           (F = 0 \<longrightarrow> m_T t = 0 \<and> m_all_systems t = [[]]) \<and>
           (M \<notin> {1..19} \<longrightarrow> m_I t = 0 \<and> m_T t = of_nat F \<and>
              (\<forall>p < 2 ^ F. set (m_all_systems t ! p) = independent_feature_name ` present p))"
proof -
  from F have F64: "F < 64" by simp
  from sum_of_combinations_ok [OF F] obtain c where c: "sum_of_combinations (of_nat F) 2 = Inr c"
    by blast
  from make_feature_location_ok [OF F64, of M] c obtain t where
    t: "make_feature_location F M = Inr t" and tax: "is_taxonomy F M t" by blast
  note counts = make_feature_location_counts [OF t c]
  have zero: "m_T t = 0 \<and> m_all_systems t = [[]]" if "F = 0"
  proof -
    from that c have "c = 0" by (simp add: sum_of_combinations_0)
    with counts that have T: "m_T t = 0" by simp
    from is_taxonomy_length [OF tax] that have len: "length (m_all_systems t) = 1" by simp
    from is_taxonomy_system [OF tax, of 0] that have "set (m_all_systems t ! 0) = {}"
      by (simp add: system_terms_def no_features_no_terms)
    with len have "m_all_systems t = [[]]"
      by (cases "m_all_systems t") simp_all
    with T show ?thesis by simp
  qed
  have plain: "m_I t = 0 \<and> m_T t = of_nat F \<and>
              (\<forall>p < 2 ^ F. set (m_all_systems t ! p) = independent_feature_name ` present p)"
    if "M \<notin> {1..19}"
  proof -
    note flags = out_of_range_flags [OF that]
    from counts flags have "m_I t = 0" "m_T t = of_nat F" by simp_all
    moreover have "set (m_all_systems t ! p) = independent_feature_name ` present p" if "p < 2 ^ F" for p
      using is_taxonomy_system [OF tax that] independent_only_systems [OF flags present_subset [OF that]]
      by simp
    ultimately show ?thesis by (intro conjI allI impI)
  qed
  show ?thesis
  proof (intro exI [of _ t] conjI impI)
    show "make_feature_location F M = Inr t" by (rule t)
    show "m_n t = F" "m_M t = M" by (rule is_taxonomy_fields [OF tax])+
    show "length (m_all_systems t) = 2 ^ F" by (rule is_taxonomy_length [OF tax])
    show "m_T t = 0" if "F = 0" using zero [OF that] by (rule conjunct1)
    show "m_all_systems t = [[]]" if "F = 0" using zero [OF that] by (rule conjunct2)
    show "m_I t = 0" if "M \<notin> {1..19}" using plain [OF that] by (rule conjunct1)
    show "m_T t = of_nat F" if "M \<notin> {1..19}" using plain [OF that] by blast
    show "\<forall>p < 2 ^ F. set (m_all_systems t ! p) = independent_feature_name ` present p"
      if "M \<notin> {1..19}" using plain [OF that] by blast
  qed
qed

text \<open>
  C4: the constructor of \<^verbatim>\<open>feature_location_t\<close> does not validate its parameters. For every
  \<open>F \<le> 20\<close> and every model id, inside or outside 1..19, it returns the taxonomy of \<open>2 ^ F\<close>
  systems and raises no error. For \<open>F = 0\<close> the taxonomy has no feature and one system
  without features. A model id outside 1..19 has none of the five categories of
  dependent features, so the taxonomy holds the independent features only.
\<close>

theorem construction_without_validation:
  assumes "F \<le> 20"
  shows "\<exists>t. make_feature_location F M = Inr t \<and> m_n t = F \<and> m_M t = M \<and>
           length (m_all_systems t) = 2 ^ F \<and>
           (F = 0 \<longrightarrow> m_T t = 0 \<and> m_all_systems t = [[]]) \<and>
           (M \<notin> {1..19} \<longrightarrow> m_I t = 0 \<and> m_T t = of_nat F \<and>
              (\<forall>p < 2 ^ F. set (m_all_systems t ! p) = independent_feature_name ` present p))"
  using assms by (rule construction_succeeds)

theorem construction_without_validation_witness:
  "(0::nat) \<le> 20 \<and> (20::nat) \<notin> {1..19} \<and>
   (\<exists>t. make_feature_location 0 20 = Inr t \<and> m_n t = 0 \<and> m_M t = 20 \<and>
        m_I t = 0 \<and> m_T t = 0 \<and> m_all_systems t = [[]])"
proof -
  from construction_without_validation [of 0 20] obtain t where
    "make_feature_location 0 20 = Inr t" "m_n t = 0" "m_M t = 20"
    "m_T t = 0 \<and> m_all_systems t = [[]]" "m_I t = 0"
    by auto
  then show ?thesis by auto
qed

text \<open>
  C4, counterexample: with \<open>F = 0\<close> (model 8), and with the model ids 0 and 20 (\<open>F = 2\<close>),
  the constructor returns a taxonomy; no domain error is raised.
\<close>

theorem construction_raises_no_domain_error:
  "(\<exists>t. make_feature_location 0 8 = Inr t \<and> m_all_systems t = [[]]) \<and>
   (\<exists>t. make_feature_location 2 0 = Inr t \<and> length (m_all_systems t) = 4) \<and>
   (\<exists>t. make_feature_location 2 20 = Inr t \<and> length (m_all_systems t) = 4) \<and>
   (\<forall>msg. make_feature_location 0 8 \<noteq> Inl (Domain_error msg)) \<and>
   (\<forall>msg. make_feature_location 2 0 \<noteq> Inl (Domain_error msg)) \<and>
   (\<forall>msg. make_feature_location 2 20 \<noteq> Inl (Domain_error msg))"
proof -
  from construction_succeeds [of 0 8] obtain t1 where
    t1: "make_feature_location 0 8 = Inr t1" "m_all_systems t1 = [[]]" by auto
  from construction_succeeds [of 2 0] obtain t2 where
    t2: "make_feature_location 2 0 = Inr t2" "length (m_all_systems t2) = 2 ^ 2" by auto
  from construction_succeeds [of 2 20] obtain t3 where
    t3: "make_feature_location 2 20 = Inr t3" "length (m_all_systems t3) = 2 ^ 2" by auto
  from t1 t2 t3 show ?thesis by simp
qed

subsection \<open>The taxonomy of two independent features and model 8\<close>

lemma flags_8: "hasO 8" "hasA 8" "hasN 8" "\<not> hasON 8" "\<not> hasAN 8"
  by (simp_all add: hasO_def hasA_def hasN_def hasON_def hasAN_def)

lemma sum_of_combinations_2: "sum_of_combinations 2 2 = Inr 1"
  by (simp add: sum_of_combinations_def sum_loop.simps combinations_u_def factorial_def
      product_u_def product_loop.simps)

lemma upt_1_3: "[1..<3] = [1, 2::nat]" "[Suc 0..<3] = [Suc 0, 2]" "[1..<Suc 2] = [1, 2]"
  by code_simp+

lemma dependent_ids_2: "dependent_ids 2 = [[1, 2]]"
proof -
  have "raw_dependent_loop 1 [1, 2] 2 [] = Inr [[1, 2]]" by code_simp
  moreover have "raw_dependent_loop (2 - 1) [1..<Suc 2] 2 [] = Inr (dependent_ids 2)"
    by (rule raw_dependent_loop_eq)
  moreover have "(2::nat) - 1 = 1" by simp
  ultimately show ?thesis by (simp only: upt_1_3) simp
qed

lemma feature_terms_2_8:
  "feature_terms 2 8 = [F_indep 1, F_indep 2, F_or [1, 2], F_and [1, 2], F_not 1, F_not 2]"
  by (simp add: feature_terms_def flags_8 dependent_ids_2 upt_1_3)

lemma names_2:
  "term_name (F_indep 1) = ''f1''" "term_name (F_indep 2) = ''f2''"
  "term_name (F_or [1, 2]) = ''f1 + f2''" "term_name (F_and [1, 2]) = ''f1 * f2''"
  "term_name (F_not 1) = ''!f1''" "term_name (F_not 2) = ''!f2''"
  by (simp_all add: composite_name_def to_string.simps)

lemma present_0: "present 0 = {}"
  by (simp add: present_def)

lemma present_3: "present 3 = {1, 2}"
proof -
  have "(3::nat) < 2 ^ 2" by simp
  from present_subset [OF this] have "present 3 \<subseteq> {1, 2}" by auto
  moreover have "bit (3::nat) 0" "bit (3::nat) 1" by (simp_all add: bit_iff_odd)
  then have "Suc 0 \<in> present 3" "Suc 1 \<in> present 3" unfolding present_def by blast+
  ultimately show ?thesis by auto
qed

lemma system_terms_2_8:
  "system_terms 2 8 {} = {F_not 1, F_not 2}"
  "system_terms 2 8 {1, 2} = {F_indep 1, F_indep 2, F_or [1, 2], F_and [1, 2]}"
  by (auto simp: system_terms_def feature_terms_2_8)

lemma system_names_2_8:
  "term_name ` system_terms 2 8 {} = {''!f1'', ''!f2''}"
  "term_name ` system_terms 2 8 {1, 2} = {''f1'', ''f2'', ''f1 + f2'', ''f1 * f2''}"
  by (simp_all only: system_terms_2_8 image_insert image_empty names_2)

lemma taxonomy_2_8:
  "\<exists>t. make_feature_location 2 8 = Inr t \<and> m_S t = 4 \<and>
     all_independent_features t = [''f1'', ''f2''] \<and>
     all_or_features t = Inr [''f1 + f2''] \<and>
     all_and_features t = Inr [''f1 * f2''] \<and>
     all_not_features t = [''!f1'', ''!f2''] \<and>
     all_or_not_features t = Inr [] \<and>
     all_and_not_features t = Inr [] \<and>
     m_O t = 1 \<and> m_A t = 1 \<and> m_N t = 2 \<and> m_ON t = 0 \<and> m_AN t = 0 \<and>
     m_I t = 4 \<and> m_T t = 6 \<and>
     length (m_all_systems t) = 4 \<and>
     set (m_all_systems t ! 0) = {''!f1'', ''!f2''} \<and>
     set (m_all_systems t ! 3) = {''f1'', ''f2'', ''f1 + f2'', ''f1 * f2''}"
proof -
  have c: "sum_of_combinations (of_nat 2) 2 = Inr 1" using sum_of_combinations_2 by simp
  have n64: "(2::nat) < 64" by simp
  from make_feature_location_ok [OF n64, of 8] c obtain t where
    t: "make_feature_location 2 8 = Inr t" and tax: "is_taxonomy 2 8 t" by blast
  note counts = make_feature_location_counts [OF t c]
  note names = all_features_names [OF tax n64]
  have S: "m_S t = 4" using is_taxonomy_fields(3) [OF tax] by simp
  have len: "length (m_all_systems t) = 4" using is_taxonomy_length [OF tax] by simp
  have s0: "set (m_all_systems t ! 0) = {''!f1'', ''!f2''}"
  proof -
    have "set (m_all_systems t ! 0) = term_name ` system_terms 2 8 (present 0)"
      by (rule is_taxonomy_system [OF tax]) simp
    then show ?thesis by (simp only: present_0 system_names_2_8)
  qed
  have s3: "set (m_all_systems t ! 3) = {''f1'', ''f2'', ''f1 + f2'', ''f1 * f2''}"
  proof -
    have "set (m_all_systems t ! 3) = term_name ` system_terms 2 8 (present 3)"
      by (rule is_taxonomy_system [OF tax]) simp
    then show ?thesis by (simp only: present_3 system_names_2_8)
  qed
  have n1: "all_independent_features t = [''f1'', ''f2'']"
    by (simp only: names upt_1_3 list.map names_2)
  have n2: "all_or_features t = Inr [''f1 + f2'']"
    by (simp only: names flags_8 if_True dependent_ids_2 list.map names_2)
  have n3: "all_and_features t = Inr [''f1 * f2'']"
    by (simp only: names flags_8 if_True dependent_ids_2 list.map names_2)
  have n4: "all_not_features t = [''!f1'', ''!f2'']"
    by (simp only: names flags_8 if_True upt_1_3 list.map names_2)
  have n5: "all_or_not_features t = Inr []"
    by (simp only: names flags_8 if_False list.map)
  have n6: "all_and_not_features t = Inr []"
    by (simp only: names flags_8 if_False list.map)
  have k: "m_O t = 1" "m_A t = 1" "m_N t = 2" "m_ON t = 0" "m_AN t = 0"
    using counts(2-6) by (simp_all add: flags_8)
  have I: "m_I t = 4" using counts(7) by (simp add: k)
  have T: "m_T t = 6" using counts(8) by (simp add: k)
  show ?thesis
    by (intro exI [of _ t] conjI t S n1 n2 n3 n4 n5 n6 k I T len s0 s3)
qed

subsection \<open>The second of three independent features\<close>

lemma upt_0_8: "[0..<8] = [0, 1, 2, 3, 4, 5, 6, 7::nat]"
  by code_simp

lemma less_8_set: "{q. q < (8::nat) \<and> P q} = set (filter P [0..<8])"
  by auto

lemma bit_1_below_8:
  "\<not> bit (0::nat) (Suc 0)" "\<not> bit (1::nat) (Suc 0)" "bit (2::nat) (Suc 0)" "bit (3::nat) (Suc 0)"
  "\<not> bit (4::nat) (Suc 0)" "\<not> bit (5::nat) (Suc 0)" "bit (6::nat) (Suc 0)" "bit (7::nat) (Suc 0)"
  by (simp_all add: bit_iff_odd)

lemma sysnames_8:
  "sysname 0 = ''S1''" "sysname 1 = ''S2''" "sysname 2 = ''S3''" "sysname 3 = ''S4''"
  "sysname 4 = ''S5''" "sysname 5 = ''S6''" "sysname 6 = ''S7''" "sysname 7 = ''S8''"
  by (simp_all add: sysname_def to_feature_id_def system_name_def to_string.simps)

lemma generator_3_2:
  "dg_expression (make_generator 3) 2 = Inr [False, False, True, True, False, False, True, True]"
  by code_simp

lemma generator_3_2_values:
  "map (dg_value (make_generator 3) 2) [1, 2, 3, 4, 5, 6, 7, 8]
   = map Inr [False, False, True, True, False, False, True, True]"
  by code_simp

lemma stride_2: "power_u 2 (2 - 1) = 2"
  by code_simp

lemma independent_value_3_1: "independent_value 3 1 = 204"
proof -
  have todo: "unat (power2_u (of_nat 3) - 1) = Suc (Suc (Suc (Suc (Suc (Suc (Suc 0))))))"
    by (simp add: power2_u_eq)
  have period: "power2_u (of_nat 1) = 2" by (simp add: power2_u_eq)
  have "independent_value_loop (Suc (Suc (Suc (Suc (Suc (Suc (Suc 0))))))) 2 (0, 1, 2)
        = (204, 0, 1)"
    by (simp add: Let_def)
  then show ?thesis by (simp only: independent_value_def todo period fst_conv)
qed

lemma f2_membership_3:
  "\<exists>t diff. make_feature_location_isolation 3 M = Inr t \<and>
     length (m_all_systems t) = 8 \<and>
     map (\<lambda>q. ''f2'' \<in> set (m_all_systems t ! q)) [0..<8]
       = [False, False, True, True, False, False, True, True] \<and>
     calculate_independent_features t ! 1 = (''f2'', 204) \<and>
     m_feature_isolations t ''f2'' = Some diff \<and>
     intersections diff = {''S3'', ''S4'', ''S7'', ''S8''} \<and>
     unions diff = {''S1'', ''S2'', ''S5'', ''S6''}"
proof -
  have "(3::nat) \<le> 20" by simp
  from make_feature_location_isolation_ok [OF this, of M] obtain t where
    t: "make_feature_location_isolation 3 M = Inr t" and tax: "is_taxonomy 3 M t"
    and fs: "m_all_features t = sort (map term_name (feature_terms 3 M))"
    and iso: "m_feature_isolations t = generate_feature_isolations (m_all_features t) (m_all_systems t)"
    by blast
  have len: "length (m_all_systems t) = 8" using is_taxonomy_length [OF tax] by simp
  have name: "term_name (F_indep 2) = ''f2''" by (simp add: to_string.simps)
  have d: "F_indep 2 \<in> set (feature_terms 3 M)" by (simp add: feature_terms_def)
  then have f: "''f2'' \<in> set (m_all_features t)"
    unfolding fs name [symmetric] by (simp del: term_name.simps)
  have mem: "''f2'' \<in> set (m_all_systems t ! q) \<longleftrightarrow> bit q (Suc 0)" if "q < 8" for q
  proof -
    from that have "q < 2 ^ 3" by simp
    from system_membership [OF tax d this]
    have "''f2'' \<in> set (m_all_systems t ! q) \<longleftrightarrow> holds 3 (F_indep 2) (present q)"
      by (simp only: name)
    also have "\<dots> \<longleftrightarrow> bit q (Suc 0)" by (auto simp: present_def)
    finally show ?thesis .
  qed
  have m8: "map (\<lambda>q. ''f2'' \<in> set (m_all_systems t ! q)) [0..<8]
       = [False, False, True, True, False, False, True, True]"
    by (simp add: upt_0_8 mem bit_iff_odd)
  have I: "{q. q < 8 \<and> ''f2'' \<in> set (m_all_systems t ! q)} = {2, 3, 6, 7}"
    by (simp add: less_8_set upt_0_8 mem bit_iff_odd)
  have U: "{q. q < 8 \<and> ''f2'' \<notin> set (m_all_systems t ! q)} = {0, 1, 4, 5}"
    by (simp add: less_8_set upt_0_8 mem bit_iff_odd)
  let ?d = "\<lparr>intersections = sysname ` {q. q < 8 \<and> ''f2'' \<in> set (m_all_systems t ! q)},
            unions = sysname ` {q. q < 8 \<and> ''f2'' \<notin> set (m_all_systems t ! q)}\<rparr>"
  have some: "m_feature_isolations t ''f2'' = Some ?d"
    using f by (simp add: iso generate_feature_isolations_eq len)
  have dI: "intersections ?d = {''S3'', ''S4'', ''S7'', ''S8''}"
    by (simp add: I sysnames_8)
  have dU: "unions ?d = {''S1'', ''S2'', ''S5'', ''S6''}"
    using sysnames_8(2) by (simp add: U sysnames_8)
  have n: "m_n t = 3" by (rule is_taxonomy_fields [OF tax])
  have nm: "independent_feature_name (to_feature_id (1 + 1)) = ''f2''"
    by (simp add: independent_feature_name_def to_feature_id_def to_string.simps)
  have "calculate_independent_features t ! 1
        = (independent_feature_name (to_feature_id (1 + 1)), independent_value 3 1)"
    unfolding calculate_independent_features_def n by (subst nth_map) simp_all
  then have cv: "calculate_independent_features t ! 1 = (''f2'', 204)"
    by (simp only: nm independent_value_3_1)
  show ?thesis
    by (intro exI [of _ t] exI [of _ ?d] conjI t len m8 cv some dI dU)
qed

text \<open>
  C6: for \<open>F = 3\<close> and the independent feature \<open>f2\<close> the stride is \<open>2 ^ (2 - 1) = 2\<close>; the
  bitstring of the generator, whose element \<open>s - 1\<close> belongs to system \<open>s\<close>, is
  \<open>0 0 1 1 0 0 1 1\<close> for the systems 1 to 8, and the value for one system agrees with it: the
  systems marked are 3, 4, 7 and 8. The closed-form strategy computes the value
  \<open>204 = 0b11001100\<close>, bit \<open>s - 1\<close> for system \<open>s\<close>. For every model id the enumeration strategy
  has \<open>f2\<close> in exactly the systems with the indices 2, 3, 6, 7, named \<open>S3, S4, S7, S8\<close>, which
  form the intersection part of the difference of \<open>f2\<close>.
\<close>

theorem f2_bitstring_of_three_features:
  "power_u 2 (2 - 1) = 2 \<and>
   dg_expression (make_generator 3) 2 = Inr [False, False, True, True, False, False, True, True] \<and>
   map (dg_value (make_generator 3) 2) [1, 2, 3, 4, 5, 6, 7, 8]
     = map Inr [False, False, True, True, False, False, True, True] \<and>
   independent_value 3 1 = 204 \<and>
   map (bit (independent_value 3 1)) [0..<8] = [False, False, True, True, False, False, True, True] \<and>
   (\<forall>M. \<exists>t diff. make_feature_location_isolation 3 M = Inr t \<and>
      length (m_all_systems t) = 8 \<and>
      map (\<lambda>q. ''f2'' \<in> set (m_all_systems t ! q)) [0..<8]
        = [False, False, True, True, False, False, True, True] \<and>
      calculate_independent_features t ! 1 = (''f2'', 204) \<and>
      m_feature_isolations t ''f2'' = Some diff \<and>
      intersections diff = {''S3'', ''S4'', ''S7'', ''S8''} \<and>
      unions diff = {''S1'', ''S2'', ''S5'', ''S6''})"
proof -
  have bits: "map (bit (independent_value 3 1)) [0..<8]
              = [False, False, True, True, False, False, True, True]"
    by (simp only: independent_value_3_1 upt_0_8) (simp add: bit_iff_odd)
  show ?thesis
    using stride_2 generator_3_2 generator_3_2_values independent_value_3_1 bits f2_membership_3
    by (intro conjI allI)
qed

text \<open>
  C6, counterexample: the bitstring is not \<open>0 1 1 0 0 1 1 0\<close>; system 2 is not marked
  and system 4 is, for the generator, the closed-form value and the enumeration strategy.
\<close>

theorem f2_bitstring_counterexample:
  "dg_expression (make_generator 3) 2 \<noteq> Inr [False, True, True, False, False, True, True, False] \<and>
   dg_value (make_generator 3) 2 2 = Inr False \<and>
   dg_value (make_generator 3) 2 4 = Inr True \<and>
   \<not> bit (independent_value 3 1) 1 \<and> bit (independent_value 3 1) 3 \<and>
   (\<exists>t. make_feature_location_isolation 3 1 = Inr t \<and>
      ''f2'' \<notin> set (m_all_systems t ! 1) \<and> ''f2'' \<in> set (m_all_systems t ! 3))"
proof -
  have 1: "dg_expression (make_generator 3) 2 \<noteq> Inr [False, True, True, False, False, True, True, False]"
    by (simp add: generator_3_2)
  have 2: "dg_value (make_generator 3) 2 2 = Inr False" "dg_value (make_generator 3) 2 4 = Inr True"
    using generator_3_2_values by simp_all
  have 3: "\<not> bit (independent_value 3 1) 1" "bit (independent_value 3 1) 3"
    by (simp_all only: independent_value_3_1) (simp_all add: bit_iff_odd)
  from f2_membership_3 [of 1]
  have "\<exists>t. make_feature_location_isolation 3 1 = Inr t \<and>
      map (\<lambda>q. ''f2'' \<in> set (m_all_systems t ! q)) [0..<8]
        = [False, False, True, True, False, False, True, True]"
    by (elim exE conjE, intro exI conjI)
  then obtain t where tt: "make_feature_location_isolation 3 1 = Inr t \<and>
      map (\<lambda>q. ''f2'' \<in> set (m_all_systems t ! q)) [0..<8]
        = [False, False, True, True, False, False, True, True]" ..
  then have t: "make_feature_location_isolation 3 1 = Inr t"
      "map (\<lambda>q. ''f2'' \<in> set (m_all_systems t ! q)) [0..<8]
        = [False, False, True, True, False, False, True, True]"
    by (rule conjunct1, rule conjunct2)
  from t(2) have "''f2'' \<notin> set (m_all_systems t ! 1)" "''f2'' \<in> set (m_all_systems t ! 3)"
    by (simp_all add: upt_0_8)
  with t(1) have "\<exists>t. make_feature_location_isolation 3 1 = Inr t \<and>
      ''f2'' \<notin> set (m_all_systems t ! 1) \<and> ''f2'' \<in> set (m_all_systems t ! 3)"
    by (intro exI [of _ t] conjI)
  with 1 2 3 show ?thesis by (intro conjI)
qed

text \<open>
  C5: for \<open>F = 2\<close> and model 8 the catalog gives \<open>hasO\<close>, \<open>hasA\<close>, \<open>hasN\<close> and neither \<open>hasON\<close> nor
  \<open>hasAN\<close>. The constructor returns the taxonomy with \<open>S = 4\<close> systems; its features are the
  independent features \<open>f1\<close> and \<open>f2\<close>, the or-feature \<open>f1 + f2\<close>, the and-feature \<open>f1 * f2\<close> and
  the not-features \<open>!f1\<close> and \<open>!f2\<close>, so the counts are \<open>O = 1\<close>, \<open>A = 1\<close>, \<open>N = 2\<close>,
  \<open>ON = AN = 0\<close>, \<open>I = 4\<close> and the total is \<open>T = 2 + 1 + 1 + 2 = 6\<close>. The system with index 0
  (no feature present) has the feature set \<open>{!f1, !f2}\<close>, the system with index 3 (both
  present) has \<open>{f1, f2, f1 + f2, f1 * f2}\<close>.
\<close>

theorem taxonomy_two_features_model_8:
  "hasO 8 \<and> hasA 8 \<and> hasN 8 \<and> \<not> hasON 8 \<and> \<not> hasAN 8 \<and>
   (\<exists>t. make_feature_location 2 8 = Inr t \<and> m_S t = 4 \<and>
     all_independent_features t = [''f1'', ''f2''] \<and>
     all_or_features t = Inr [''f1 + f2''] \<and>
     all_and_features t = Inr [''f1 * f2''] \<and>
     all_not_features t = [''!f1'', ''!f2''] \<and>
     all_or_not_features t = Inr [] \<and>
     all_and_not_features t = Inr [] \<and>
     m_O t = 1 \<and> m_A t = 1 \<and> m_N t = 2 \<and> m_ON t = 0 \<and> m_AN t = 0 \<and>
     m_I t = 4 \<and> m_T t = 6 \<and>
     length (m_all_systems t) = 4 \<and>
     set (m_all_systems t ! 0) = {''!f1'', ''!f2''} \<and>
     set (m_all_systems t ! 3) = {''f1'', ''f2'', ''f1 + f2'', ''f1 * f2''})"
  using flags_8 taxonomy_2_8 by (intro conjI)

text \<open>C5, counterexample: the total feature count of this taxonomy is 6, not 5.\<close>

theorem total_feature_count_counterexample:
  "\<exists>t. make_feature_location 2 8 = Inr t \<and> m_T t \<noteq> 5 \<and> m_T t = 6 \<and>
       m_T t = 2 + m_O t + m_A t + m_N t"
proof -
  from taxonomy_2_8 obtain t where
    tt: "make_feature_location 2 8 = Inr t \<and> m_S t = 4 \<and>
     all_independent_features t = [''f1'', ''f2''] \<and>
     all_or_features t = Inr [''f1 + f2''] \<and>
     all_and_features t = Inr [''f1 * f2''] \<and>
     all_not_features t = [''!f1'', ''!f2''] \<and>
     all_or_not_features t = Inr [] \<and>
     all_and_not_features t = Inr [] \<and>
     m_O t = 1 \<and> m_A t = 1 \<and> m_N t = 2 \<and> m_ON t = 0 \<and> m_AN t = 0 \<and>
     m_I t = 4 \<and> m_T t = 6 \<and>
     length (m_all_systems t) = 4 \<and>
     set (m_all_systems t ! 0) = {''!f1'', ''!f2''} \<and>
     set (m_all_systems t ! 3) = {''f1'', ''f2'', ''f1 + f2'', ''f1 * f2''}" ..
  then have "make_feature_location 2 8 = Inr t" "m_T t = 6" "m_O t = 1" "m_A t = 1" "m_N t = 2"
    by simp_all
  then show ?thesis by (intro exI [of _ t]) simp
qed

end
